theory Spec2Isabelle
  imports Main "HOL-Library.Word"
begin

section \<open>Data model\<close>

text \<open>
  A shallow embedding of package \<open>pkg\<close> of the merkle-tree repository: the hash
  abstraction (\<open>hash.go\<close>), the string item, the concatenation buffers and their pool,
  the node model (\<open>node.go\<close>) and the builder and verifier (\<open>merkle_tree.go\<close>).

  Go pointers to nodes are addresses into an explicit store (a list of nodes; a new node
  gets the next free address), a nil pointer is \<open>None\<close>. In \<open>Build\<close> the goroutines of one
  level run one after the other, in index order; what they do when they run at the same
  time under a hasher with a pool is followed by \<open>schedule\<close>. The engines of the standard
  library are
  functions from the written bytes to the digest \<open>Sum(nil)\<close> returns; their \<open>Write\<close>
  never fails, so the error branches after \<open>Write\<close> have no counterpart.
\<close>

type_synonym bytes = "8 word list"

datatype error =
    ErrMerkleTreeConfigIsNil
  | ErrMerkleTreeConfigHasherIsNil
  | ErrMerkleTreeConfigMaxGoroutineIsEqZero
  | ErrMerkleTreeDataIsNilOrEmpty
  | ErrHashNotAllowed
  | Errorf string error

text \<open>A call either returns (possibly an error value) or panics with a message.\<close>

datatype fault = Err error | Panic string

text \<open>\<open>fmt.Errorf("...: %w", err)\<close> wraps a returned error; a panic passes through.\<close>

fun wrap :: "string \<Rightarrow> fault \<Rightarrow> fault" where
  "wrap m (Err e) = Err (Errorf m e)"
| "wrap m (Panic p) = Panic p"

type_synonym Hash = string

definition SHA256 :: Hash where
  "SHA256 = ''sha256''"

definition UNKNOWNHASH :: Hash where
  "UNKNOWNHASH = ''unknown''"

text \<open>The engines a \<open>HashPool\<close> hands out, as the digest function they compute.\<close>

record HashPool =
  hashFunc :: "bytes \<Rightarrow> bytes"

record Hasher =
  IsSort :: bool
  hasher_Hash :: Hash
  Pool :: "HashPool option"

record StringData =
  Value :: string

record Node =
  Parent :: "nat option"
  Left :: "nat option"
  Right :: "nat option"
  isOrphan :: bool
  Hash :: bytes
  Data :: "StringData option"

record MerkleTreeConfig =
  Hasher :: "Hasher option"
  MaxGoroutine :: "32 word"
  config_isSort :: bool

record MerkleTree =
  Root :: "nat option"
  Leaves :: "nat list"
  config :: MerkleTreeConfig

record MerkleTreeBuilder =
  builder_config :: "MerkleTreeConfig option"

text \<open>
  The mutable state: the node store and the global pool of concatenation buffers
  (\<open>sync.Pool\<close>, here a stack: \<open>Get\<close> takes the buffer put back last, or makes a new one).
\<close>

record state =
  nodes :: "Node list"
  buffers :: "bytes list"

section \<open>Hash abstraction\<close>

definition IsValid :: "Hash \<Rightarrow> bool" where
  "IsValid s = (if s = SHA256 then True else if s = UNKNOWNHASH then False else False)"

definition not_recognized :: "Hash \<Rightarrow> string" where
  "not_recognized s = ''Hash<'' @ s @ ''> is not recognized''"

text \<open>\<open>crypto.SHA256\<close> is the fifth identifier of \<open>crypto.Hash\<close>.\<close>

definition Hash_Hash :: "Hash \<Rightarrow> fault + nat" where
  "Hash_Hash s = (if s = SHA256 then Inr 5 else Inl (Panic (not_recognized s)))"

text \<open>\<open>sha256\<close> stands for the digest function of the engines \<open>sha256.New\<close> makes.\<close>

definition HashFunc :: "(bytes \<Rightarrow> bytes) \<Rightarrow> Hash \<Rightarrow> fault + (bytes \<Rightarrow> bytes)" where
  "HashFunc sha256 s = (if s = SHA256 then Inr sha256 else Inl (Panic (not_recognized s)))"

definition bytes_of :: "string \<Rightarrow> bytes" where
  "bytes_of s = map of_char s"

definition StringData_Hash :: "(bytes \<Rightarrow> bytes) \<Rightarrow> Hasher \<Rightarrow> StringData \<Rightarrow> fault + bytes" where
  "StringData_Hash sha256 h d =
     (case Pool h of
        None \<Rightarrow> (case HashFunc sha256 (hasher_Hash h) of
                   Inl e \<Rightarrow> Inl e
                 | Inr hf \<Rightarrow> Inr (hf (bytes_of (Value d))))
      | Some p \<Rightarrow> Inr (hashFunc p (bytes_of (Value d))))"

section \<open>Concatenation buffers\<close>

text \<open>\<open>bytes.Compare\<close>: lexicographic order of byte slices, as \<open>-1\<close>, \<open>0\<close> or \<open>1\<close>.\<close>

fun bytes_Compare :: "bytes \<Rightarrow> bytes \<Rightarrow> int" where
  "bytes_Compare [] [] = 0"
| "bytes_Compare [] (y # ys) = - 1"
| "bytes_Compare (x # xs) [] = 1"
| "bytes_Compare (x # xs) (y # ys) =
     (if x < y then - 1 else if y < x then 1 else bytes_Compare xs ys)"

definition GetConcatBuffers :: "state \<Rightarrow> bytes \<times> state" where
  "GetConcatBuffers s =
     (case buffers s of
        [] \<Rightarrow> (replicate (256 + 256) 0, s)
      | b # bs \<Rightarrow> (b, s\<lparr>buffers := bs\<rparr>))"

definition Close :: "bytes \<Rightarrow> state \<Rightarrow> state" where
  "Close arr s = s\<lparr>buffers := arr # buffers s\<rparr>"

definition index_out_of_range :: string where
  "index_out_of_range = ''index out of range''"

text \<open>
  The first loop of \<open>concat\<close>: \<open>for i = 0; i < len(b1); i++ { b[i] = b1[i] }\<close>. The
  result is the buffer as the loop left it, with the panic that stopped it, if any.
\<close>

function copy_first :: "bytes \<Rightarrow> bytes \<Rightarrow> nat \<Rightarrow> fault option \<times> bytes" where
  "copy_first b b1 i =
     (if i < length b1
      then (if i < length b then copy_first (b[i := b1 ! i]) b1 (Suc i)
            else (Some (Panic index_out_of_range), b))
      else (None, b))"
  by pat_completeness auto
termination
  by (relation "measure (\<lambda>(b, b1, i). length b1 - i)") auto

text \<open>
  The second loop: \<open>for j := i; j < len(b2); j++ { b[j] = b1[i-len(b1)] }\<close>, entered with
  \<open>i\<close> as the first loop left it. The right-hand side is read before the store.
\<close>

function copy_second :: "bytes \<Rightarrow> bytes \<Rightarrow> bytes \<Rightarrow> nat \<Rightarrow> nat \<Rightarrow> fault option \<times> bytes" where
  "copy_second b b1 b2 i j =
     (if j < length b2
      then (if i - length b1 < length b1
            then (if j < length b then copy_second (b[j := b1 ! (i - length b1)]) b1 b2 i (Suc j)
                  else (Some (Panic index_out_of_range), b))
            else (Some (Panic index_out_of_range), b))
      else (None, b))"
  by pat_completeness auto
termination
  by (relation "measure (\<lambda>(b, b1, b2, i, j). length b2 - j)") auto

text \<open>
  \<open>concat\<close>. With \<open>isReuseBuffAllocation\<close> the buffer comes from the pool and the deferred
  \<open>Close\<close> puts it back, as written so far, when the function returns or panics; the
  slice returned is that buffer.
\<close>

definition concat_bytes :: "bool \<Rightarrow> bool \<Rightarrow> bytes \<Rightarrow> bytes \<Rightarrow> state \<Rightarrow> (fault + bytes) \<times> state" where
  "concat_bytes isReuseBuffAllocation isSort b1 b2 s =
     (let (b, s1) = (if isReuseBuffAllocation then GetConcatBuffers s
                     else (replicate (256 + 256) 0, s));
          (c1, c2) = (if isSort \<and> bytes_Compare b1 b2 = 1 then (b2, b1) else (b1, b2));
          close = (\<lambda>arr. if isReuseBuffAllocation then Close arr s1 else s1)
      in case copy_first b c1 0 of
           (Some e, b') \<Rightarrow> (Inl e, close b')
         | (None, b') \<Rightarrow>
             (case copy_second b' c1 c2 (length c1) (length c1) of
                (Some e, b'') \<Rightarrow> (Inl e, close b'')
              | (None, b'') \<Rightarrow> (Inr b'', close b'')))"

section \<open>Nodes\<close>

definition nil_dereference :: string where
  "nil_dereference = ''invalid memory address or nil pointer dereference''"

text \<open>Reading through a pointer; an address outside the store stands for nil.\<close>

definition node_at :: "state \<Rightarrow> nat \<Rightarrow> Node option" where
  "node_at s p = (if p < length (nodes s) then Some (nodes s ! p) else None)"

definition Hash_of :: "state \<Rightarrow> nat \<Rightarrow> fault + bytes" where
  "Hash_of s p = (case node_at s p of None \<Rightarrow> Inl (Panic nil_dereference) | Some n \<Rightarrow> Inr (Hash n))"

definition alloc :: "Node \<Rightarrow> state \<Rightarrow> nat \<times> state" where
  "alloc n s = (length (nodes s), s\<lparr>nodes := nodes s @ [n]\<rparr>)"

text \<open>
  The block that \<open>NewParentNode\<close>, \<open>Verify\<close> and \<open>computeNodeHash\<close> each spell out: get
  an engine (from \<open>HashFunc\<close>, or from the pool), write \<open>concat\<close> of the two operands
  into it, return \<open>Sum(nil)\<close>. The operands are evaluated after the engine is made.
\<close>

definition hash_concat ::
  "(bytes \<Rightarrow> bytes) \<Rightarrow> Hasher \<Rightarrow> fault + bytes \<Rightarrow> fault + bytes \<Rightarrow> state \<Rightarrow> (fault + bytes) \<times> state" where
  "hash_concat sha256 p lo ro s =
     (case Pool p of
        None \<Rightarrow>
          (case HashFunc sha256 (hasher_Hash p) of
             Inl e \<Rightarrow> (Inl e, s)
           | Inr hf \<Rightarrow>
               (case lo of Inl e \<Rightarrow> (Inl e, s) | Inr l \<Rightarrow>
                (case ro of Inl e \<Rightarrow> (Inl e, s) | Inr r \<Rightarrow>
                 (case concat_bytes False (IsSort p) l r s of
                    (Inl e, s') \<Rightarrow> (Inl e, s')
                  | (Inr b, s') \<Rightarrow> (Inr (hf b), s')))))
      | Some pool \<Rightarrow>
          (case lo of Inl e \<Rightarrow> (Inl e, s) | Inr l \<Rightarrow>
           (case ro of Inl e \<Rightarrow> (Inl e, s) | Inr r \<Rightarrow>
            (case concat_bytes True (IsSort p) l r s of
               (Inl e, s') \<Rightarrow> (Inl e, s')
             | (Inr b, s') \<Rightarrow> (Inr (hashFunc pool b), s')))))"

definition NewParentNode ::
  "(bytes \<Rightarrow> bytes) \<Rightarrow> Hasher \<Rightarrow> nat \<Rightarrow> nat \<Rightarrow> state \<Rightarrow> (fault + nat) \<times> state" where
  "NewParentNode sha256 p left right s =
     (case hash_concat sha256 p (Hash_of s left) (Hash_of s right) s of
        (Inl e, s') \<Rightarrow> (Inl e, s')
      | (Inr h, s') \<Rightarrow>
          (case alloc \<lparr>Parent = None, Left = Some left, Right = Some right,
                       isOrphan = False, Hash = h, Data = None\<rparr> s' of
             (n, s'') \<Rightarrow> (Inr n, s'')))"

definition newLeaf ::
  "(bytes \<Rightarrow> bytes) \<Rightarrow> Hasher \<Rightarrow> StringData \<Rightarrow> bool \<Rightarrow> state \<Rightarrow> (fault + nat) \<times> state" where
  "newLeaf sha256 p d isPadding s =
     (case StringData_Hash sha256 p d of
        Inl e \<Rightarrow> (Inl (wrap ''d.Hasher(): data<%s>'' e), s)
      | Inr b \<Rightarrow>
          (case alloc \<lparr>Parent = None, Left = None, Right = None,
                       isOrphan = isPadding, Hash = b, Data = Some d\<rparr> s of
             (n, s') \<Rightarrow> (Inr n, s')))"

definition NewLeaf :: "(bytes \<Rightarrow> bytes) \<Rightarrow> Hasher \<Rightarrow> StringData \<Rightarrow> state \<Rightarrow> (fault + nat) \<times> state" where
  "NewLeaf sha256 p d s = newLeaf sha256 p d False s"

definition NewOrphanLeaf :: "(bytes \<Rightarrow> bytes) \<Rightarrow> Hasher \<Rightarrow> StringData \<Rightarrow> state \<Rightarrow> (fault + nat) \<times> state" where
  "NewOrphanLeaf sha256 p d s = newLeaf sha256 p d True s"

definition isLeaf :: "Node \<Rightarrow> bool" where
  "isLeaf n = (Left n = None \<and> Right n = None)"

text \<open>\<open>NodeSorter.Less\<close>, on the nodes two entries of the slice point to.\<close>

definition Less :: "state \<Rightarrow> nat \<Rightarrow> nat \<Rightarrow> bool" where
  "Less s i j = (bytes_Compare (Hash (nodes s ! i)) (Hash (nodes s ! j)) = - 1)"

text \<open>
  \<open>sort.Sort\<close> of the standard library, as the insertion sort it runs on slices of at
  most 12 entries: each entry moves towards the front while it is \<open>Less\<close> than its
  predecessor. On a longer slice the library sorts by another method, which gives the same
  entries in an order that is sorted by digest too, with entries of equal digest possibly
  in another order among themselves. It reads every entry's node, so a nil entry panics.
\<close>

fun insert_sorted :: "state \<Rightarrow> nat \<Rightarrow> nat list \<Rightarrow> nat list" where
  "insert_sorted s x [] = [x]"
| "insert_sorted s x (y # ys) = (if Less s x y then x # y # ys else y # insert_sorted s x ys)"

definition sort_Sort :: "state \<Rightarrow> nat list \<Rightarrow> fault + nat list" where
  "sort_Sort s xs =
     (if list_all (\<lambda>p. p < length (nodes s)) xs
      then Inr (foldl (\<lambda>acc x. insert_sorted s x acc) [] xs)
      else Inl (Panic nil_dereference))"

section \<open>Building the tree\<close>

text \<open>The loop of \<open>generateLeafNodes\<close> that makes one leaf per item.\<close>

fun new_leaves ::
  "(bytes \<Rightarrow> bytes) \<Rightarrow> Hasher \<Rightarrow> StringData list \<Rightarrow> state \<Rightarrow> (fault + nat list) \<times> state" where
  "new_leaves sha256 hs [] s = (Inr [], s)"
| "new_leaves sha256 hs (d # ds) s =
     (case NewLeaf sha256 hs d s of
        (Inl e, s') \<Rightarrow> (Inl (wrap ''NewLeaf(data[%d])'' e), s')
      | (Inr leaf, s') \<Rightarrow>
          (case new_leaves sha256 hs ds s' of
             (Inl e, s'') \<Rightarrow> (Inl e, s'')
           | (Inr leaves, s'') \<Rightarrow> (Inr (leaf # leaves), s'')))"

definition generateLeafNodes ::
  "(bytes \<Rightarrow> bytes) \<Rightarrow> Hasher \<Rightarrow> StringData list \<Rightarrow> state \<Rightarrow> (fault + nat list) \<times> state" where
  "generateLeafNodes sha256 hs data s =
     (if length data = 0 then (Inl (Err ErrMerkleTreeDataIsNilOrEmpty), s)
      else
        let isUnevenData = (length data mod 2 = 1) in
        case new_leaves sha256 hs data s of
          (Inl e, s1) \<Rightarrow> (Inl e, s1)
        | (Inr leaves, s1) \<Rightarrow>
            (case (if isUnevenData
                   then (case NewOrphanLeaf sha256 hs (data ! (length data - 1)) s1 of
                           (Inl e, s2) \<Rightarrow> (Inl e, s2)
                         | (Inr leaf, s2) \<Rightarrow> (Inr (leaves @ [leaf]), s2))
                   else (Inr leaves, s1)) of
               (Inl e, s2) \<Rightarrow> (Inl e, s2)
             | (Inr leaves', s2) \<Rightarrow>
                 (if IsSort hs then (sort_Sort s2 leaves', s2) else (Inr leaves', s2))))"

text \<open>
  \<open>leafNodes[left].Parent = node\<close>. The entry was read by \<open>NewParentNode\<close> just before,
  so its address is in the store.
\<close>

definition set_Parent :: "nat \<Rightarrow> nat \<Rightarrow> state \<Rightarrow> state" where
  "set_Parent p q s = s\<lparr>nodes := (nodes s)[p := (nodes s ! p)\<lparr>Parent := Some q\<rparr>]\<rparr>"

text \<open>
  The loop of \<open>generateParentNodes\<close> over the pairs of one level, each goroutine run to
  its end before the next starts. The last entry of a level of odd length has
  \<open>left + 1 = len(leafNodes)\<close> and is paired with itself. Under a hasher without a pool
  the goroutines share neither buffer nor engine and write to different entries, so every
  schedule gives the nodes this one gives; under a hasher with a pool they share the pooled
  buffers, and the digests \<open>NewParentNode\<close> stores depend on the schedule (the pointers
  it stores do not).
\<close>

fun pair_nodes ::
  "(bytes \<Rightarrow> bytes) \<Rightarrow> Hasher \<Rightarrow> nat list \<Rightarrow> state \<Rightarrow> (fault + nat list) \<times> state" where
  "pair_nodes sha256 hs [] s = (Inr [], s)"
| "pair_nodes sha256 hs [left] s =
     (case NewParentNode sha256 hs left left s of
        (Inl e, s') \<Rightarrow> (Inl (wrap ''NewParentNode()'' e), s')
      | (Inr node, s') \<Rightarrow> (Inr [node], set_Parent left node (set_Parent left node s')))"
| "pair_nodes sha256 hs (left # right # rest) s =
     (case NewParentNode sha256 hs left right s of
        (Inl e, s') \<Rightarrow> (Inl (wrap ''NewParentNode()'' e), s')
      | (Inr node, s') \<Rightarrow>
          (case pair_nodes sha256 hs rest (set_Parent right node (set_Parent left node s')) of
             (Inl e, s'') \<Rightarrow> (Inl e, s'')
           | (Inr ns, s'') \<Rightarrow> (Inr (node # ns), s'')))"

text \<open>
  \<open>generateParentNodes\<close> calls itself on the next level until a level has two nodes.
  On a level of one node it never gets there, so a run is \<open>None\<close> when it does not return.
\<close>

partial_function (option) generateParentNodes ::
  "(bytes \<Rightarrow> bytes) \<Rightarrow> Hasher \<Rightarrow> nat list \<Rightarrow> state \<Rightarrow> ((fault + nat option) \<times> state) option" where
  "generateParentNodes sha256 hs leafNodes s =
     (if length leafNodes = 0 then Some (Inl (Err ErrMerkleTreeDataIsNilOrEmpty), s)
      else
        case pair_nodes sha256 hs leafNodes s of
          (Inl e, s') \<Rightarrow> Some (Inl e, s')
        | (Inr ns, s') \<Rightarrow>
            if length leafNodes = 2
            then (case node_at s' (leafNodes ! (length leafNodes - 1)) of
                    None \<Rightarrow> Some (Inl (Panic nil_dereference), s')
                  | Some n \<Rightarrow> Some (Inr (Parent n), s'))
            else generateParentNodes sha256 hs ns s')"

text \<open>What \<open>Build\<close> returns next to an error: the tree so far; nothing when it panics.\<close>

fun failed :: "MerkleTree \<Rightarrow> string \<Rightarrow> fault \<Rightarrow> MerkleTree option \<times> fault option" where
  "failed mt m (Err e) = (Some mt, Some (Err (Errorf m e)))"
| "failed mt m (Panic p) = (None, Some (Panic p))"

definition Build ::
  "(bytes \<Rightarrow> bytes) \<Rightarrow> MerkleTreeBuilder \<Rightarrow> StringData list \<Rightarrow> state
     \<Rightarrow> ((MerkleTree option \<times> fault option) \<times> state) option" where
  "Build sha256 b data s =
     (case builder_config b of
        None \<Rightarrow> Some ((None, Some (Err ErrMerkleTreeConfigIsNil)), s)
      | Some cfg \<Rightarrow>
          (case Hasher cfg of
             None \<Rightarrow> Some ((None, Some (Err ErrMerkleTreeConfigHasherIsNil)), s)
           | Some hs \<Rightarrow>
               if MaxGoroutine cfg = 0
               then Some ((None, Some (Err ErrMerkleTreeConfigMaxGoroutineIsEqZero)), s)
               else if length data = 0
               then Some ((None, Some (Err ErrMerkleTreeDataIsNilOrEmpty)), s)
               else
                 let mt = \<lparr>Root = None, Leaves = [], config = cfg\<rparr> in
                 (case generateLeafNodes sha256 hs data s of
                    (Inl e, s1) \<Rightarrow> Some (failed mt ''mt.generateLeafNodes(data)'' e, s1)
                  | (Inr leafNodes, s1) \<Rightarrow>
                      (case generateParentNodes sha256 hs leafNodes s1 of
                         None \<Rightarrow> None
                       | Some r \<Rightarrow>
                           (case r of
                              (Inl e, s2) \<Rightarrow> Some (failed mt ''mt.generateParentNodes()'' e, s2)
                            | (Inr root, s2) \<Rightarrow>
                                Some ((Some (mt\<lparr>Root := root, Leaves := leafNodes\<rparr>), None),
                                      s2))))))"

section \<open>Verification\<close>

definition computeNodeHash ::
  "(bytes \<Rightarrow> bytes) \<Rightarrow> Hasher \<Rightarrow> nat option \<Rightarrow> state \<Rightarrow> (fault + bytes) \<times> state" where
  "computeNodeHash sha256 hs n s =
     (case (case n of None \<Rightarrow> None | Some p \<Rightarrow> node_at s p) of
        None \<Rightarrow> (Inl (Panic nil_dereference), s)
      | Some nd \<Rightarrow>
          if isLeaf nd
          then (case Data nd of
                  None \<Rightarrow> (Inl (Panic nil_dereference), s)
                | Some d \<Rightarrow> (StringData_Hash sha256 hs d, s))
          else hash_concat sha256 hs
                 (case Left nd of None \<Rightarrow> Inl (Panic nil_dereference) | Some l \<Rightarrow> Hash_of s l)
                 (case Right nd of None \<Rightarrow> Inl (Panic nil_dereference) | Some r \<Rightarrow> Hash_of s r)
                 s)"

text \<open>
  The inner loop of \<open>Verify\<close>, \<open>for currentParent != nil\<close>: recompute both children,
  combine them, compare with the stored digest, move to the parent. A chain of parent
  pointers that never ends gives \<open>None\<close>.
\<close>

partial_function (option) climb ::
  "(bytes \<Rightarrow> bytes) \<Rightarrow> Hasher \<Rightarrow> nat option \<Rightarrow> state \<Rightarrow> ((fault + bool) \<times> state) option" where
  "climb sha256 hs currentParent s =
     (case currentParent of
        None \<Rightarrow> Some (Inr True, s)
      | Some p \<Rightarrow>
          (case node_at s p of
             None \<Rightarrow> Some (Inl (Panic nil_dereference), s)
           | Some cp \<Rightarrow>
               (case computeNodeHash sha256 hs (Left cp) s of
                  (Inl e, s1) \<Rightarrow> Some (Inl (wrap ''mt.computeNodeHash(currentParent.Left)'' e), s1)
                | (Inr leftNodeHash, s1) \<Rightarrow>
                    (case computeNodeHash sha256 hs (Right cp) s1 of
                       (Inl e, s2) \<Rightarrow>
                         Some (Inl (wrap ''mt.computeNodeHash(currentParent.Right)'' e), s2)
                     | (Inr rightNodeHash, s2) \<Rightarrow>
                         (case hash_concat sha256 hs (Inr leftNodeHash) (Inr rightNodeHash) s2 of
                            (Inl e, s3) \<Rightarrow> Some (Inl e, s3)
                          | (Inr h, s3) \<Rightarrow>
                              if h \<noteq> Hash cp then Some (Inr False, s3)
                              else climb sha256 hs (Parent cp) s3)))))"

text \<open>The outer loop of \<open>Verify\<close>: the first leaf with the item's digest decides.\<close>

fun scan_leaves ::
  "(bytes \<Rightarrow> bytes) \<Rightarrow> Hasher \<Rightarrow> bytes \<Rightarrow> nat list \<Rightarrow> state \<Rightarrow> ((fault + bool) \<times> state) option" where
  "scan_leaves sha256 hs hash [] s = Some (Inr False, s)"
| "scan_leaves sha256 hs hash (leaf # rest) s =
     (case node_at s leaf of
        None \<Rightarrow> Some (Inl (Panic nil_dereference), s)
      | Some n \<Rightarrow>
          if Hash n \<noteq> hash then scan_leaves sha256 hs hash rest s
          else climb sha256 hs (Parent n) s)"

definition Verify ::
  "(bytes \<Rightarrow> bytes) \<Rightarrow> MerkleTree \<Rightarrow> StringData \<Rightarrow> state \<Rightarrow> ((fault + bool) \<times> state) option" where
  "Verify sha256 mt data s =
     (if length (Leaves mt) = 0 then Some (Inr False, s)
      else
        case Hasher (config mt) of
          None \<Rightarrow> Some (Inl (Panic nil_dereference), s)
        | Some hs \<Rightarrow>
            (case StringData_Hash sha256 hs data of
               Inl e \<Rightarrow> Some (Inl (wrap ''data.Hasher()'' e), s)
             | Inr hash \<Rightarrow> scan_leaves sha256 hs hash (Leaves mt) s))"

section \<open>Goroutines of one level\<close>

text \<open>
  With a hash pool, the goroutine that \<open>generateParentNodes\<close> starts for a pair runs
  \<open>NewParentNode\<close>: it calls \<open>concat(true, ...)\<close>, writes the slice \<open>concat\<close> returned into
  its engine and keeps \<open>Sum(nil)\<close>. \<open>concat\<close> returns \<open>cb.arr\<close> after its deferred
  \<open>cb.Close()\<close> has put \<open>cb\<close> back into the pool, so the goroutine reads an array that
  another goroutine may have taken from the pool and written in the meantime. To follow
  that, the arrays of the \<open>BuffCloser\<close>s are kept here in a store, by address, and the pool
  holds addresses (a stack, as in \<open>state\<close>).
\<close>

record shared =
  arrays :: "bytes list"
  pooled :: "nat list"

text \<open>\<open>GetConcatBuffers\<close> and \<open>Close\<close> on addresses.\<close>

definition GetConcatBuffers_shared :: "shared \<Rightarrow> nat \<times> shared" where
  "GetConcatBuffers_shared p =
     (case pooled p of
        [] \<Rightarrow> (length (arrays p), p\<lparr>arrays := arrays p @ [replicate (256 + 256) 0]\<rparr>)
      | a # as \<Rightarrow> (a, p\<lparr>pooled := as\<rparr>))"

definition Close_shared :: "nat \<Rightarrow> shared \<Rightarrow> shared" where
  "Close_shared a p = p\<lparr>pooled := a # pooled p\<rparr>"

text \<open>
  \<open>concat(true, isSort, b1, b2)\<close>, run without interruption: the two loops write into
  the array at the address taken from the pool, the deferred \<open>Close\<close> puts the address
  back, and the slice returned is that array, by address.
\<close>

definition concat_shared :: "bool \<Rightarrow> bytes \<Rightarrow> bytes \<Rightarrow> shared \<Rightarrow> (fault + nat) \<times> shared" where
  "concat_shared isSort b1 b2 p =
     (let (a, p1) = GetConcatBuffers_shared p;
          (c1, c2) = (if isSort \<and> bytes_Compare b1 b2 = 1 then (b2, b1) else (b1, b2));
          close = (\<lambda>arr. Close_shared a (p1\<lparr>arrays := (arrays p1)[a := arr]\<rparr>))
      in case copy_first (arrays p1 ! a) c1 0 of
           (Some e, b') \<Rightarrow> (Inl e, close b')
         | (None, b') \<Rightarrow>
             (case copy_second b' c1 c2 (length c1) (length c1) of
                (Some e, b'') \<Rightarrow> (Inl e, close b'')
              | (None, b'') \<Rightarrow> (Inr a, close b'')))"

text \<open>
  A goroutine of \<open>generateParentNodes\<close> under a hasher with a pool: started with the
  digests of its two nodes; after \<open>concat\<close> has returned, holding the address of the slice;
  after \<open>h.Sum(nil)\<close>, holding the digest of the parent node it makes; or stopped by a panic.
\<close>

datatype goroutine =
    Started bytes bytes
  | Concatenated nat
  | Returned bytes
  | Stopped fault

text \<open>
  One step of a goroutine: the call of \<open>concat\<close>, then \<open>h.Write\<close> and \<open>h.Sum(nil)\<close> on
  the slice, which read the array as it is at that moment.
\<close>

definition advance :: "HashPool \<Rightarrow> bool \<Rightarrow> goroutine \<Rightarrow> shared \<Rightarrow> goroutine \<times> shared" where
  "advance pool isSort g p =
     (case g of
        Started l r \<Rightarrow>
          (case concat_shared isSort l r p of
             (Inl e, p') \<Rightarrow> (Stopped e, p')
           | (Inr a, p') \<Rightarrow> (Concatenated a, p'))
      | Concatenated a \<Rightarrow> (Returned (hashFunc pool (arrays p ! a)), p)
      | Returned h \<Rightarrow> (g, p)
      | Stopped e \<Rightarrow> (g, p))"

definition running :: "goroutine \<Rightarrow> bool" where
  "running g = (case g of Started l r \<Rightarrow> True | Concatenated a \<Rightarrow> True
                | Returned h \<Rightarrow> False | Stopped e \<Rightarrow> False)"

text \<open>
  \<open>errs.SetLimit(int(MaxGoroutine))\<close>: \<open>errs.Go\<close> starts the goroutines in index order and
  waits while \<open>limit\<close> of them are running, so goroutine \<open>i\<close> may take its first step only
  when fewer than \<open>limit\<close> of the goroutines before it are still running.
\<close>

definition may_run :: "nat \<Rightarrow> goroutine list \<Rightarrow> nat \<Rightarrow> bool" where
  "may_run limit gs i \<longleftrightarrow>
     i < length gs \<and> (case gs ! i of
                        Started l r \<Rightarrow> length (filter running (take i gs)) < limit
                      | Concatenated a \<Rightarrow> True
                      | Returned h \<Rightarrow> False
                      | Stopped e \<Rightarrow> False)"

text \<open>
  A schedule names, step by step, the goroutine that runs next; a goroutine that may not
  run is passed over.
\<close>

fun schedule ::
  "HashPool \<Rightarrow> bool \<Rightarrow> nat \<Rightarrow> nat list \<Rightarrow> goroutine list \<times> shared \<Rightarrow> goroutine list \<times> shared" where
  "schedule pool isSort limit [] c = c"
| "schedule pool isSort limit (i # is) (gs, p) =
     (if may_run limit gs i
      then (case advance pool isSort (gs ! i) p of
              (g, p') \<Rightarrow> schedule pool isSort limit is (gs[i := g], p'))
      else schedule pool isSort limit is (gs, p))"

section \<open>Predicates and functions used to state the properties\<close>

text \<open>
  The digest function a hasher computes with: that of its pool's engines when it has a
  pool, that of \<open>sha256.New\<close> otherwise.
\<close>

definition engine :: "(bytes \<Rightarrow> bytes) \<Rightarrow> Hasher \<Rightarrow> bytes \<Rightarrow> bytes" where
  "engine sha256 hs = (case Pool hs of None \<Rightarrow> sha256 | Some p \<Rightarrow> hashFunc p)"

text \<open>
  A hasher that can make its engines (it has a pool, or it names \<open>sha256\<close>, the one
  algorithm \<open>HashFunc\<close> accepts) and whose digests have 32 bytes, as those of SHA-256 have.
\<close>

definition hasher_ok :: "(bytes \<Rightarrow> bytes) \<Rightarrow> Hasher \<Rightarrow> bool" where
  "hasher_ok sha256 hs \<longleftrightarrow>
     (Pool hs = None \<longrightarrow> hasher_Hash hs = SHA256) \<and> (\<forall>x. length (engine sha256 hs x) = 32)"

text \<open>
  Every pooled buffer has its 512 bytes and holds zeros after the first 32: the state of
  the pool as long as only digests of 32 bytes have been written into its buffers.
\<close>

definition pool_clean :: "state \<Rightarrow> bool" where
  "pool_clean s \<longleftrightarrow> list_all (\<lambda>b. length b = 512 \<and> drop 32 b = replicate 480 0) (buffers s)"

text \<open>
  The pooled buffers are as above when the hasher has a pool, and any when it has none:
  without a pool no buffer is taken from the pool.
\<close>

definition buffers_ok :: "Hasher \<Rightarrow> state \<Rightarrow> bool" where
  "buffers_ok hs s \<longleftrightarrow> Pool hs = None \<or> pool_clean s"

text \<open>
  The operand \<open>concat\<close> copies into the buffer: the smaller one with the pairing-sort
  flag, the first one without.
\<close>

definition first_operand :: "bool \<Rightarrow> bytes \<Rightarrow> bytes \<Rightarrow> bytes" where
  "first_operand isSort b1 b2 = (if isSort \<and> bytes_Compare b1 b2 = 1 then b2 else b1)"

text \<open>
  The digest the combination step returns on two digests of 32 bytes, as a function of
  the two digests.
\<close>

definition combine :: "(bytes \<Rightarrow> bytes) \<Rightarrow> Hasher \<Rightarrow> bytes \<Rightarrow> bytes \<Rightarrow> bytes" where
  "combine sha256 hs l r = engine sha256 hs (first_operand (IsSort hs) l r @ replicate 480 0)"

text \<open>
  The node \<open>newLeaf\<close> allocates for an item.
\<close>

definition mk_leaf :: "(bytes \<Rightarrow> bytes) \<Rightarrow> Hasher \<Rightarrow> bool \<Rightarrow> StringData \<Rightarrow> Node" where
  "mk_leaf sha256 hs pad d =
     \<lparr>Parent = None, Left = None, Right = None, isOrphan = pad,
      Hash = engine sha256 hs (bytes_of (Value d)), Data = Some d\<rparr>"

text \<open>
  The node \<open>NewParentNode\<close> allocates for two children in store \<open>h\<close>, and the nodes one
  level's loop allocates, in order.
\<close>

definition mk_parent :: "(bytes \<Rightarrow> bytes) \<Rightarrow> Hasher \<Rightarrow> Node list \<Rightarrow> nat \<Rightarrow> nat \<Rightarrow> Node" where
  "mk_parent sha256 hs h l r =
     \<lparr>Parent = None, Left = Some l, Right = Some r, isOrphan = False,
      Hash = combine sha256 hs (Hash (h ! l)) (Hash (h ! r)), Data = None\<rparr>"

fun parents_of :: "(bytes \<Rightarrow> bytes) \<Rightarrow> Hasher \<Rightarrow> Node list \<Rightarrow> nat list \<Rightarrow> Node list" where
  "parents_of sha256 hs h [] = []"
| "parents_of sha256 hs h [l] = [mk_parent sha256 hs h l l]"
| "parents_of sha256 hs h (l # r # rest) = mk_parent sha256 hs h l r # parents_of sha256 hs h rest"

text \<open>
  Two values of a node that differ at most in the parent pointer.
\<close>

definition same_but_Parent :: "Node \<Rightarrow> Node \<Rightarrow> bool" where
  "same_but_Parent n n' \<longleftrightarrow> n' = n\<lparr>Parent := Parent n'\<rparr>"

text \<open>
  The state after the loop over one level \<open>ls\<close>, started in \<open>s\<close>: the parents are the
  new nodes, the last entry's parent is the node allocated last, and the old nodes are as
  they were but for the parent pointers of the level's entries, which point to new nodes.
\<close>

definition level_post :: "(bytes \<Rightarrow> bytes) \<Rightarrow> Hasher \<Rightarrow> nat list \<Rightarrow> state \<Rightarrow> state \<Rightarrow> bool" where
  "level_post sha256 hs ls s s' \<longleftrightarrow>
     buffers_ok hs s'
     \<and> length (nodes s') = length (nodes s) + (length ls + 1) div 2
     \<and> drop (length (nodes s)) (nodes s') = parents_of sha256 hs (nodes s) ls
     \<and> (ls \<noteq> [] \<longrightarrow> Parent (nodes s' ! last ls) = Some (length (nodes s') - 1))
     \<and> (\<forall>p < length (nodes s). same_but_Parent (nodes s ! p) (nodes s' ! p)
           \<and> (if p \<in> set ls
               then \<exists>q. Parent (nodes s' ! p) = Some q \<and> length (nodes s) \<le> q \<and> q < length (nodes s')
               else Parent (nodes s' ! p) = Parent (nodes s ! p)))"

text \<open>
  The state after one iteration of that loop on the pair \<open>l\<close>, \<open>r\<close>.
\<close>

definition step_post :: "(bytes \<Rightarrow> bytes) \<Rightarrow> Hasher \<Rightarrow> nat \<Rightarrow> nat \<Rightarrow> state \<Rightarrow> state \<Rightarrow> bool" where
  "step_post sha256 hs l r s s2 \<longleftrightarrow>
     buffers_ok hs s2
     \<and> length (nodes s2) = Suc (length (nodes s))
     \<and> nodes s2 ! length (nodes s) = mk_parent sha256 hs (nodes s) l r
     \<and> (\<forall>p < length (nodes s). same_but_Parent (nodes s ! p) (nodes s2 ! p)
           \<and> Parent (nodes s2 ! p) = (if p = l \<or> p = r then Some (length (nodes s)) else Parent (nodes s ! p)))"

text \<open>
  The invariant of the nodes a build allocates (those from address \<open>base\<close> on): digests
  have 32 bytes; a parent pointer leads to a later node that has children; a leaf's digest is
  that of its item; a node with children has two, allocated earlier, and its digest is the
  combination of theirs.
\<close>

definition node_ok :: "(bytes \<Rightarrow> bytes) \<Rightarrow> Hasher \<Rightarrow> nat \<Rightarrow> Node list \<Rightarrow> nat \<Rightarrow> bool" where
  "node_ok sha256 hs base h p \<longleftrightarrow>
     length (Hash (h ! p)) = 32
     \<and> (\<forall>q. Parent (h ! p) = Some q \<longrightarrow> p < q \<and> q < length h \<and> \<not> isLeaf (h ! q))
     \<and> (isLeaf (h ! p) \<longrightarrow>
          (\<exists>d. Data (h ! p) = Some d \<and> Hash (h ! p) = engine sha256 hs (bytes_of (Value d))))
     \<and> (\<not> isLeaf (h ! p) \<longrightarrow>
          (\<exists>l r. Left (h ! p) = Some l \<and> Right (h ! p) = Some r
             \<and> base \<le> l \<and> l < p \<and> base \<le> r \<and> r < p
             \<and> Hash (h ! p) = combine sha256 hs (Hash (h ! l)) (Hash (h ! r))))"

definition heap_ok :: "(bytes \<Rightarrow> bytes) \<Rightarrow> Hasher \<Rightarrow> nat \<Rightarrow> Node list \<Rightarrow> bool" where
  "heap_ok sha256 hs base h \<longleftrightarrow> (\<forall>p. base \<le> p \<and> p < length h \<longrightarrow> node_ok sha256 hs base h p)"

text \<open>
  The digests of the next level and of the root, as functions of a level's digests.
\<close>

fun pair_digests :: "(bytes \<Rightarrow> bytes) \<Rightarrow> Hasher \<Rightarrow> bytes list \<Rightarrow> bytes list" where
  "pair_digests sha256 hs [] = []"
| "pair_digests sha256 hs [l] = [combine sha256 hs l l]"
| "pair_digests sha256 hs (l # r # rest) = combine sha256 hs l r # pair_digests sha256 hs rest"

function root_digest :: "(bytes \<Rightarrow> bytes) \<Rightarrow> Hasher \<Rightarrow> bytes list \<Rightarrow> bytes" where
  "root_digest sha256 hs ds =
     (if length ds \<le> 2 then (case pair_digests sha256 hs ds of [] \<Rightarrow> [] | d # _ \<Rightarrow> d)
      else root_digest sha256 hs (pair_digests sha256 hs ds))"
  by pat_completeness auto

termination
proof (relation "measure (\<lambda>(sha256, hs, ds). length ds)")
  show "wf (measure (\<lambda>(sha256 :: bytes \<Rightarrow> bytes, hs :: Hasher, ds :: bytes list). length ds))"
    by simp
next
  fix sha256 :: "bytes \<Rightarrow> bytes" and hs :: Hasher and ds :: "bytes list"
  assume a: "\<not> length ds \<le> 2"
  have "length (pair_digests sha256 hs xs) = (length xs + 1) div 2" for xs
    by (induction sha256 hs xs rule: pair_digests.induct) auto
  with a show "((sha256, hs, pair_digests sha256 hs ds), (sha256, hs, ds))
                 \<in> measure (\<lambda>(sha256, hs, ds). length ds)"
    by simp
qed

declare root_digest.simps [simp del]

text \<open>
  The nodes \<open>generateLeafNodes\<close> allocates for the items, the padding leaf last.
\<close>

definition leaf_nodes :: "(bytes \<Rightarrow> bytes) \<Rightarrow> Hasher \<Rightarrow> StringData list \<Rightarrow> Node list" where
  "leaf_nodes sha256 hs data =
     map (mk_leaf sha256 hs False) data
     @ (if length data mod 2 = 1 then [mk_leaf sha256 hs True (data ! (length data - 1))] else [])"

text \<open>
  The insertion sort of \<open>sort.Sort\<close> on the digests themselves, and the digests of the leaf
  array \<open>generateLeafNodes\<close> returns.
\<close>

fun insert_digest :: "bytes \<Rightarrow> bytes list \<Rightarrow> bytes list" where
  "insert_digest x [] = [x]"
| "insert_digest x (y # ys) =
     (if bytes_Compare x y = - 1 then x # y # ys else y # insert_digest x ys)"

definition sort_digests :: "bytes list \<Rightarrow> bytes list" where
  "sort_digests xs = foldl (\<lambda>acc x. insert_digest x acc) [] xs"

definition leaf_digests :: "(bytes \<Rightarrow> bytes) \<Rightarrow> Hasher \<Rightarrow> StringData list \<Rightarrow> bytes list" where
  "leaf_digests sha256 hs data =
     (if IsSort hs then sort_digests (map Hash (leaf_nodes sha256 hs data))
      else map Hash (leaf_nodes sha256 hs data))"

text \<open>
  The leaf array after \<open>sort.Sort\<close>.
\<close>

definition sorted_nodes :: "state \<Rightarrow> nat list \<Rightarrow> nat list" where
  "sorted_nodes s xs = foldl (\<lambda>acc x. insert_sorted s x acc) [] xs"

text \<open>
  Store \<open>h'\<close> is store \<open>h\<close> but for the digest stored in node \<open>n\<close>.
\<close>

definition agree_except :: "nat \<Rightarrow> Node list \<Rightarrow> Node list \<Rightarrow> bool" where
  "agree_except n h h' \<longleftrightarrow>
     length h' = length h
     \<and> (\<forall>q < length h. Parent (h' ! q) = Parent (h ! q) \<and> Left (h' ! q) = Left (h ! q)
            \<and> Right (h' ! q) = Right (h ! q) \<and> Data (h' ! q) = Data (h ! q)
            \<and> (q \<noteq> n \<longrightarrow> Hash (h' ! q) = Hash (h ! q)))"


text \<open>
  Sample data. A digest function to run the model with: 32 copies of the first byte
  written. A hasher without pool and without pairing-sort, its configuration and builder,
  the state of a fresh program, and the store and tree that \<open>Build\<close> makes of four items.
\<close>

definition first_byte_digest :: "bytes \<Rightarrow> bytes" where
  "first_byte_digest x = replicate 32 (if x = [] then 0 else x ! 0)"

definition plain_hasher :: Hasher where
  "plain_hasher = \<lparr>IsSort = False, hasher_Hash = SHA256, Pool = None\<rparr>"

definition plain_config :: MerkleTreeConfig where
  "plain_config = \<lparr>Hasher = Some plain_hasher, MaxGoroutine = 1000, config_isSort = False\<rparr>"

definition plain_builder :: MerkleTreeBuilder where
  "plain_builder = \<lparr>builder_config = Some plain_config\<rparr>"

definition empty_state :: state where
  "empty_state = \<lparr>nodes = [], buffers = []\<rparr>"

definition item :: "string \<Rightarrow> StringData" where
  "item v = \<lparr>Value = v\<rparr>"

definition leaf_node :: "nat \<Rightarrow> 8 word \<Rightarrow> string \<Rightarrow> Node" where
  "leaf_node p c v = \<lparr>Parent = Some p, Left = None, Right = None, isOrphan = False,
                      Hash = replicate 32 c, Data = Some (item v)\<rparr>"

definition inner_node :: "nat option \<Rightarrow> nat \<Rightarrow> nat \<Rightarrow> 8 word \<Rightarrow> Node" where
  "inner_node p l r c = \<lparr>Parent = p, Left = Some l, Right = Some r, isOrphan = False,
                        Hash = replicate 32 c, Data = None\<rparr>"

definition four_nodes :: "Node list" where
  "four_nodes = [leaf_node 4 97 ''a'', leaf_node 4 98 ''b'', leaf_node 5 99 ''c'', leaf_node 5 100 ''d'',
                 inner_node (Some 6) 0 1 97, inner_node (Some 6) 2 3 99, inner_node None 4 5 97]"

definition four_tree :: MerkleTree where
  "four_tree = \<lparr>Root = Some 6, Leaves = [0, 1, 2, 3], config = plain_config\<rparr>"

text \<open>
  A builder whose hasher names the algorithm \<open>unknown\<close> and has no pool, and the store
  \<open>Build\<close> makes of the items a, b, a, c.
\<close>

definition unknown_builder :: MerkleTreeBuilder where
  "unknown_builder =
     \<lparr>builder_config = Some \<lparr>Hasher = Some \<lparr>IsSort = False, hasher_Hash = UNKNOWNHASH, Pool = None\<rparr>,
                              MaxGoroutine = 1000, config_isSort = False\<rparr>\<rparr>"





text \<open>
  A fault that is a panic, not a returned error value.
\<close>

fun is_panic :: "fault \<Rightarrow> bool" where
  "is_panic (Panic m) = True"
| "is_panic (Err e) = False"

section \<open>The combination step\<close>

declare copy_first.simps [simp del] copy_second.simps [simp del]

lemma bytes_Compare_flip: "bytes_Compare a b = 1 \<longleftrightarrow> bytes_Compare b a = - 1"
  by (induction a b rule: bytes_Compare.induct) auto

lemma bytes_Compare_eq: "bytes_Compare a b = 0 \<longleftrightarrow> a = b"
  by (induction a b rule: bytes_Compare.induct) auto

lemma bytes_Compare_range:
  "bytes_Compare a b = - 1 \<or> bytes_Compare a b = 0 \<or> bytes_Compare a b = 1"
  by (induction a b rule: bytes_Compare.induct) auto

lemma copy_second_done: "length b2 \<le> j \<Longrightarrow> copy_second b b1 b2 i j = (None, b)"
  by (subst copy_second.simps) simp

lemma copy_first_closed:
  "i \<le> length b1 \<Longrightarrow> length b1 \<le> length b \<Longrightarrow>
   copy_first b b1 i = (None, take i b @ drop i b1 @ drop (length b1) b)"
proof (induction b b1 i rule: copy_first.induct)
  case (1 b b1 i)
  show ?case
  proof (cases "i < length b1")
    case True
    with 1 show ?thesis
      by (subst copy_first.simps) (simp add: take_Suc_conv_app_nth Cons_nth_drop_Suc)
  next
    case False
    with 1 show ?thesis
      by (subst copy_first.simps) simp
  qed
qed

lemma concat_second_unused:
  "length d2 \<le> length d1 \<Longrightarrow> length d2' \<le> length d1 \<Longrightarrow>
   concat_bytes r False d1 d2 s = concat_bytes r False d1 d2' s"
  by (simp add: concat_bytes_def copy_second_done split: prod.splits option.splits)

lemma concat_sorted_commute: "concat_bytes r True d1 d2 s = concat_bytes r True d2 d1 s"
  using bytes_Compare_flip[of d1 d2] bytes_Compare_flip[of d2 d1] bytes_Compare_eq[of d1 d2]
    bytes_Compare_range[of d1 d2]
  by (auto simp: concat_bytes_def)

text \<open>
  What \<open>concat\<close> returns on a fresh buffer when the second operand is no longer than the
  first: the first operand (after the swap, if any) and the untouched rest of the buffer.
\<close>

lemma concat_fresh:
  assumes "length b1 \<le> 512" "length b2 \<le> length b1"
  shows "concat_bytes False False b1 b2 s = (Inr (b1 @ replicate (512 - length b1) 0), s)"
  using assms by (simp add: concat_bytes_def copy_second_done copy_first_closed)

text \<open>
  C2, at two digests of 32 bytes, without sorting and on a fresh buffer: the buffer that
  is hashed holds the first operand followed by zero bytes; none of the second operand's
  bytes is in it, so it is not the two digests written one after the other.
\<close>

theorem concat_drops_second_operand:
  "concat_bytes False False (replicate 32 1) (replicate 32 2) s
     = (Inr (replicate 32 1 @ replicate 480 0), s)
   \<and> replicate 32 1 @ replicate 480 0
       \<noteq> replicate 32 1 @ replicate 32 2 @ replicate 448 (0 :: 8 word)"
proof -
  have "replicate 480 (0 :: 8 word) ! 0 \<noteq> (replicate 32 2 @ replicate 448 0) ! 0"
    by (simp add: nth_append)
  then have "replicate 480 (0 :: 8 word) \<noteq> replicate 32 2 @ replicate 448 0"
    by metis
  then show ?thesis
    by (simp add: concat_fresh)
qed

text \<open>
  C5: with the pairing-sort flag set, the combination step gives the same digest (and
  leaves the same state) for both orders of its operands.
\<close>

theorem combine_sorted_commutes:
  "IsSort hs \<Longrightarrow>
   hash_concat sha256 hs (Inr d1) (Inr d2) s = hash_concat sha256 hs (Inr d2) (Inr d1) s"
  by (simp add: hash_concat_def concat_sorted_commute[of _ d1 d2] split: option.splits sum.splits)

theorem combine_sorted_commutes_witness:
  "IsSort \<lparr>IsSort = True, hasher_Hash = SHA256, Pool = None\<rparr>
   \<and> hash_concat id \<lparr>IsSort = True, hasher_Hash = SHA256, Pool = None\<rparr>
        (Inr [1, 2]) (Inr [1, 1]) \<lparr>nodes = [], buffers = []\<rparr>
     = hash_concat id \<lparr>IsSort = True, hasher_Hash = SHA256, Pool = None\<rparr>
        (Inr [1, 1]) (Inr [1, 2]) \<lparr>nodes = [], buffers = []\<rparr>"
  using combine_sorted_commutes[of "\<lparr>IsSort = True, hasher_Hash = SHA256, Pool = None\<rparr>"
      id "[1, 2]" "[1, 1]" "\<lparr>nodes = [], buffers = []\<rparr>"]
  by simp

text \<open>
  C10: without the pairing-sort flag and on digests of 32 bytes, the second loop of
  \<open>concat\<close> makes no iteration, and the combination step gives the same result whatever
  its second operand is.
\<close>

theorem combine_ignores_second_operand:
  assumes "\<not> IsSort hs" "length d1 = 32" "length d2 = 32" "length d2' = 32"
  shows "copy_second b d1 d2 (length d1) (length d1) = (None, b)
         \<and> concat_bytes r False d1 d2 s = concat_bytes r False d1 d2' s
         \<and> hash_concat sha256 hs (Inr d1) (Inr d2) s = hash_concat sha256 hs (Inr d1) (Inr d2') s"
proof -
  have c: "concat_bytes r False d1 d2 s = concat_bytes r False d1 d2' s" for r
    using assms by (simp add: concat_second_unused)
  show ?thesis
    using assms c by (simp add: hash_concat_def copy_second_done split: option.splits sum.splits)
qed

theorem combine_ignores_second_operand_witness:
  "\<not> IsSort \<lparr>IsSort = False, hasher_Hash = SHA256, Pool = None\<rparr>
   \<and> length (replicate 32 (1 :: 8 word)) = 32 \<and> length (replicate 32 (2 :: 8 word)) = 32
   \<and> length (replicate 32 (3 :: 8 word)) = 32
   \<and> hash_concat id \<lparr>IsSort = False, hasher_Hash = SHA256, Pool = None\<rparr>
        (Inr (replicate 32 1)) (Inr (replicate 32 2)) \<lparr>nodes = [], buffers = []\<rparr>
     = hash_concat id \<lparr>IsSort = False, hasher_Hash = SHA256, Pool = None\<rparr>
        (Inr (replicate 32 1)) (Inr (replicate 32 3)) \<lparr>nodes = [], buffers = []\<rparr>"
  using combine_ignores_second_operand[of "\<lparr>IsSort = False, hasher_Hash = SHA256, Pool = None\<rparr>"
      "replicate 32 1" "replicate 32 2" "replicate 32 3" "[]" False
      "\<lparr>nodes = [], buffers = []\<rparr>" id]
  by simp

section \<open>Unsupported algorithms\<close>

text \<open>
  C7, as the code has it: for every identifier other than \<open>sha256\<close>, \<open>IsValid\<close> is false
  and both \<open>HashFunc\<close> and \<open>Hash\<close> panic with the message of \<open>ErrHashNotAllowed\<close>; no
  error value is returned.
\<close>

theorem unsupported_hash_panics:
  "s \<noteq> SHA256 \<Longrightarrow>
   \<not> IsValid s
   \<and> HashFunc sha256 s = Inl (Panic (''Hash<'' @ s @ ''> is not recognized''))
   \<and> Hash_Hash s = Inl (Panic (''Hash<'' @ s @ ''> is not recognized''))"
  by (simp add: IsValid_def HashFunc_def Hash_Hash_def not_recognized_def)

theorem unsupported_hash_panics_witness:
  "''md5'' \<noteq> SHA256 \<and> \<not> IsValid ''md5''
   \<and> HashFunc id ''md5'' = Inl (Panic ''Hash<md5> is not recognized'')
   \<and> Hash_Hash ''md5'' = Inl (Panic ''Hash<md5> is not recognized'')"
  using unsupported_hash_panics[of "''md5''" id]
  by (simp add: SHA256_def)

text \<open>The claim as stated fails: \<open>HashFunc\<close> on \<open>md5\<close> returns no error value, it panics.\<close>

theorem unsupported_hash_counterexample:
  "HashFunc id ''md5'' \<noteq> Inl (Err ErrHashNotAllowed)
   \<and> HashFunc id ''md5'' = Inl (Panic ''Hash<md5> is not recognized'')"
  by (simp add: HashFunc_def SHA256_def not_recognized_def)

section \<open>Combination of two digests on clean buffers\<close>

lemma concat_clean:
  assumes "pool_clean s" "length b1 = 32" "length b2 = 32"
  shows "\<exists>s'. concat_bytes reuse srt b1 b2 s = (Inr (first_operand srt b1 b2 @ replicate 480 0), s')
            \<and> nodes s' = nodes s \<and> pool_clean s'"
proof (cases "reuse \<and> buffers s \<noteq> []")
  case True
  then obtain b bs where bs: "buffers s = b # bs" by (cases "buffers s") auto
  with assms(1) have b: "length b = 512" "drop 32 b = replicate 480 0" and r: "list_all (\<lambda>b. length b = 512 \<and> drop 32 b = replicate 480 0) bs"
    by (auto simp: pool_clean_def)
  show ?thesis
    using True assms bs b r
    by (auto simp: concat_bytes_def GetConcatBuffers_def Close_def copy_first_closed
        copy_second_done first_operand_def pool_clean_def)
next
  case False
  then show ?thesis
    using assms
    by (auto simp: concat_bytes_def GetConcatBuffers_def Close_def copy_first_closed
        copy_second_done first_operand_def pool_clean_def)
qed

lemma concat_fresh32:
  "length b1 = 32 \<Longrightarrow> length b2 = 32 \<Longrightarrow>
   concat_bytes False srt b1 b2 s = (Inr (first_operand srt b1 b2 @ replicate 480 0), s)"
  by (simp add: concat_bytes_def copy_second_done copy_first_closed first_operand_def)

lemma buffers_ok_no_pool: "Pool hs = None \<Longrightarrow> buffers_ok hs s"
  by (simp add: buffers_ok_def)


lemma buffers_ok_nodes [simp]: "buffers_ok hs (s\<lparr>nodes := h\<rparr>) = buffers_ok hs s"
  by (simp add: buffers_ok_def pool_clean_def)

lemma hash_concat_ok:
  assumes "hasher_ok sha256 hs" "buffers_ok hs s" "length l = 32" "length r = 32"
  shows "\<exists>s'. hash_concat sha256 hs (Inr l) (Inr r) s = (Inr (combine sha256 hs l r), s')
            \<and> nodes s' = nodes s \<and> buffers_ok hs s'"
proof (cases "Pool hs")
  case None
  with assms show ?thesis
    by (simp add: hash_concat_def HashFunc_def hasher_ok_def combine_def engine_def
        concat_fresh32)
next
  case (Some p)
  with assms(2) have "pool_clean s" by (simp add: buffers_ok_def)
  from concat_clean[OF this assms(3,4), of True "IsSort hs"] obtain s' where
    "concat_bytes True (IsSort hs) l r s = (Inr (first_operand (IsSort hs) l r @ replicate 480 0), s')"
    "nodes s' = nodes s" "pool_clean s'" by blast
  with Some assms(1) show ?thesis
    by (auto simp: hash_concat_def combine_def engine_def buffers_ok_def)
qed

lemma combine_length: "hasher_ok sha256 hs \<Longrightarrow> length (combine sha256 hs l r) = 32"
  by (simp add: combine_def hasher_ok_def)

lemma StringData_Hash_ok:
  "hasher_ok sha256 hs \<Longrightarrow> StringData_Hash sha256 hs d = Inr (engine sha256 hs (bytes_of (Value d)))"
  by (auto simp: StringData_Hash_def hasher_ok_def HashFunc_def engine_def split: option.splits)

section \<open>Allocation of leaves and parents\<close>

lemma nodes_set_Parent [simp]:
  "nodes (set_Parent p q s) = (nodes s)[p := (nodes s ! p)\<lparr>Parent := Some q\<rparr>]"
  by (simp add: set_Parent_def)

lemma buffers_ok_set_Parent [simp]: "buffers_ok hs (set_Parent p q s) = buffers_ok hs s"
  by (simp add: set_Parent_def buffers_ok_def pool_clean_def)

lemma same_but_Parent_refl [simp]: "same_but_Parent n n"
  by (simp add: same_but_Parent_def)

lemma same_but_Parent_upd [simp]: "same_but_Parent n (n\<lparr>Parent := x\<rparr>)"
  by (simp add: same_but_Parent_def)

lemma same_but_Parent_trans:
  "same_but_Parent a b \<Longrightarrow> same_but_Parent b c \<Longrightarrow> same_but_Parent a c"
  by (metis (no_types, lifting) Node.surjective Node.update_convs(1) same_but_Parent_def)

lemma same_but_Parent_fields:
  "same_but_Parent n n' \<Longrightarrow>
   Left n' = Left n \<and> Right n' = Right n \<and> Hash n' = Hash n \<and> Data n' = Data n \<and> isOrphan n' = isOrphan n"
  by (metis (no_types, lifting) Node.select_convs(2-6) Node.surjective Node.update_convs(1) same_but_Parent_def)

lemma same_but_Parent_eq: "same_but_Parent n n' \<Longrightarrow> Parent n' = Parent n \<Longrightarrow> n' = n"
  by (simp add: same_but_Parent_def)

lemma parents_of_cong:
  "\<forall>p \<in> set ls. Hash (h' ! p) = Hash (h ! p) \<Longrightarrow> parents_of sha256 hs h' ls = parents_of sha256 hs h ls"
  by (induction sha256 hs h ls rule: parents_of.induct) (auto simp: mk_parent_def)

lemma length_parents_of [simp]: "length (parents_of sha256 hs h ls) = (length ls + 1) div 2"
  by (induction sha256 hs h ls rule: parents_of.induct) auto

lemma newLeaf_ok:
  "hasher_ok sha256 hs \<Longrightarrow>
   newLeaf sha256 hs d pad s = (Inr (length (nodes s)), s\<lparr>nodes := nodes s @ [mk_leaf sha256 hs pad d]\<rparr>)"
  by (simp add: newLeaf_def StringData_Hash_ok alloc_def mk_leaf_def)

lemma upt_add_Suc: "n # [Suc n ..< Suc (n + k)] = [n ..< Suc (n + k)]"
  by (simp add: upt_conv_Cons)

lemma new_leaves_ok:
  "hasher_ok sha256 hs \<Longrightarrow>
   new_leaves sha256 hs ds s
     = (Inr [length (nodes s) ..< length (nodes s) + length ds],
        s\<lparr>nodes := nodes s @ map (mk_leaf sha256 hs False) ds\<rparr>)"
proof (induction ds arbitrary: s)
  case Nil
  then show ?case by simp
next
  case (Cons d ds)
  show ?case
    using Cons.prems
    by (simp add: NewLeaf_def newLeaf_ok Cons.IH[OF Cons.prems] upt_add_Suc del: upt_Suc)
qed

lemma NewParentNode_ok:
  assumes "hasher_ok sha256 hs" "buffers_ok hs s"
    "l < length (nodes s)" "r < length (nodes s)"
    "length (Hash (nodes s ! l)) = 32" "length (Hash (nodes s ! r)) = 32"
  shows "\<exists>s'. NewParentNode sha256 hs l r s = (Inr (length (nodes s)), s')
           \<and> nodes s' = nodes s @ [mk_parent sha256 hs (nodes s) l r] \<and> buffers_ok hs s'"
proof -
  from hash_concat_ok[OF assms(1,2,5,6)] obtain s1 where
    h: "hash_concat sha256 hs (Inr (Hash (nodes s ! l))) (Inr (Hash (nodes s ! r))) s
          = (Inr (combine sha256 hs (Hash (nodes s ! l)) (Hash (nodes s ! r))), s1)"
    and s1: "nodes s1 = nodes s" "buffers_ok hs s1" by blast
  show ?thesis
    using assms(3,4) h s1
    by (simp add: NewParentNode_def Hash_of_def node_at_def alloc_def mk_parent_def buffers_ok_def pool_clean_def)
qed

section \<open>One level of parents\<close>

lemma pair_step:
  assumes "hasher_ok sha256 hs" "buffers_ok hs s"
    "l < length (nodes s)" "r < length (nodes s)"
    "length (Hash (nodes s ! l)) = 32" "length (Hash (nodes s ! r)) = 32"
  shows "\<exists>s1. NewParentNode sha256 hs l r s = (Inr (length (nodes s)), s1)
           \<and> step_post sha256 hs l r s (set_Parent r (length (nodes s)) (set_Parent l (length (nodes s)) s1))"
proof -
  from NewParentNode_ok[OF assms] obtain s1 where
    n: "NewParentNode sha256 hs l r s = (Inr (length (nodes s)), s1)"
    and h: "nodes s1 = nodes s @ [mk_parent sha256 hs (nodes s) l r]" and c: "buffers_ok hs s1"
    by blast
  have "step_post sha256 hs l r s (set_Parent r (length (nodes s)) (set_Parent l (length (nodes s)) s1))"
    unfolding step_post_def
    using assms(3,4) h c
    by (auto simp: nth_append nth_list_update)
  with n show ?thesis by blast
qed

lemma pair_nodes_ok:
  "hasher_ok sha256 hs \<Longrightarrow> buffers_ok hs s \<Longrightarrow>
   \<forall>p\<in>set ls. p < length (nodes s) \<and> length (Hash (nodes s ! p)) = 32 \<Longrightarrow>
   \<exists>s'. pair_nodes sha256 hs ls s
           = (Inr [length (nodes s) ..< length (nodes s) + (length ls + 1) div 2], s')
        \<and> level_post sha256 hs ls s s'"
proof (induction sha256 hs ls s rule: pair_nodes.induct)
  case (1 sha256 hs s)
  then show ?case by (simp add: level_post_def)
next
  case (2 sha256 hs left s)
  then have pre: "left < length (nodes s)" "length (Hash (nodes s ! left)) = 32" by auto
  from pair_step[OF 2(1,2) pre(1) pre(1) pre(2) pre(2)] obtain s1 where
    n: "NewParentNode sha256 hs left left s = (Inr (length (nodes s)), s1)"
    and p: "step_post sha256 hs left left s
              (set_Parent left (length (nodes s)) (set_Parent left (length (nodes s)) s1))"
    by blast
  let ?s2 = "set_Parent left (length (nodes s)) (set_Parent left (length (nodes s)) s1)"
  have "level_post sha256 hs [left] s ?s2"
    using p pre(1) unfolding step_post_def level_post_def
    by (auto simp: Cons_nth_drop_Suc[symmetric])
  with n show ?case by auto
next
  case (3 sha256 hs left right rest s)
  let ?n = "length (nodes s)"
  from 3(2-4) have pre: "left < ?n" "right < ?n" "length (Hash (nodes s ! left)) = 32"
    "length (Hash (nodes s ! right)) = 32" by auto
  from pair_step[OF 3(2,3) pre] obtain s1 where
    n: "NewParentNode sha256 hs left right s = (Inr ?n, s1)"
    and p: "step_post sha256 hs left right s (set_Parent right ?n (set_Parent left ?n s1))"
    by blast
  let ?s2 = "set_Parent right ?n (set_Parent left ?n s1)"
  from p have c2: "buffers_ok hs ?s2" and len2: "length (nodes ?s2) = Suc ?n"
    and new2: "nodes ?s2 ! ?n = mk_parent sha256 hs (nodes s) left right"
    and fr2: "\<And>p. p < ?n \<Longrightarrow> same_but_Parent (nodes s ! p) (nodes ?s2 ! p)"
    and par2: "\<And>p. p < ?n \<Longrightarrow> Parent (nodes ?s2 ! p) = (if p = left \<or> p = right then Some ?n else Parent (nodes s ! p))"
    unfolding step_post_def by blast+
  have rest2: "\<forall>p\<in>set rest. p < length (nodes ?s2) \<and> length (Hash (nodes ?s2 ! p)) = 32"
  proof
    fix p assume "p \<in> set rest"
    with 3(4) have a: "p < ?n" "length (Hash (nodes s ! p)) = 32" by auto
    from same_but_Parent_fields[OF fr2[OF a(1)]] a len2
    show "p < length (nodes ?s2) \<and> length (Hash (nodes ?s2 ! p)) = 32" by simp
  qed
  from 3(1)[OF n[symmetric] refl 3(2) c2 rest2] obtain s' where
    r: "pair_nodes sha256 hs rest ?s2
          = (Inr [length (nodes ?s2) ..< length (nodes ?s2) + (length rest + 1) div 2], s')"
    and lp: "level_post sha256 hs rest ?s2 s'"
    by blast
  from lp have c': "buffers_ok hs s'"
    and len': "length (nodes s') = length (nodes ?s2) + (length rest + 1) div 2"
    and drop': "drop (length (nodes ?s2)) (nodes s') = parents_of sha256 hs (nodes ?s2) rest"
    and last': "rest \<noteq> [] \<Longrightarrow> Parent (nodes s' ! last rest) = Some (length (nodes s') - 1)"
    and fr': "\<And>p. p < length (nodes ?s2) \<Longrightarrow> same_but_Parent (nodes ?s2 ! p) (nodes s' ! p)"
    and par': "\<And>p. p < length (nodes ?s2) \<Longrightarrow>
                (if p \<in> set rest
                 then \<exists>q. Parent (nodes s' ! p) = Some q \<and> length (nodes ?s2) \<le> q \<and> q < length (nodes s')
                 else Parent (nodes s' ! p) = Parent (nodes ?s2 ! p))"
    unfolding level_post_def by blast+
  have res: "pair_nodes sha256 hs (left # right # rest) s
          = (Inr [?n ..< ?n + (length (left # right # rest) + 1) div 2], s')"
    using n r len2 by (simp add: upt_add_Suc del: upt_Suc)
  have notin: "?n \<notin> set rest" using 3(4) by auto
  have newn: "nodes s' ! ?n = mk_parent sha256 hs (nodes s) left right"
  proof -
    have "?n < length (nodes ?s2)" using len2 by simp
    from fr'[OF this] par'[OF this] notin new2 show ?thesis
      by (metis same_but_Parent_eq)
  qed
  have cong: "parents_of sha256 hs (nodes ?s2) rest = parents_of sha256 hs (nodes s) rest"
  proof (rule parents_of_cong, rule ballI)
    fix p assume "p \<in> set rest"
    with 3(4) have "p < ?n" by auto
    from same_but_Parent_fields[OF fr2[OF this]] show "Hash (nodes ?s2 ! p) = Hash (nodes s ! p)" by simp
  qed
  have d: "drop ?n (nodes s') = parents_of sha256 hs (nodes s) (left # right # rest)"
  proof -
    have "?n < length (nodes s')" using len' len2 by simp
    then have "drop ?n (nodes s') = nodes s' ! ?n # drop (Suc ?n) (nodes s')"
      by (simp add: Cons_nth_drop_Suc)
    with newn drop' cong len2 show ?thesis by simp
  qed
  have l: "Parent (nodes s' ! last (left # right # rest)) = Some (length (nodes s') - 1)"
  proof (cases "rest = []")
    case True
    have "right < length (nodes ?s2)" using pre len2 by simp
    from par'[OF this] True par2[OF pre(2)] len' len2 show ?thesis by simp
  next
    case False
    with last' show ?thesis by simp
  qed
  have f: "\<forall>p < ?n. same_but_Parent (nodes s ! p) (nodes s' ! p)
           \<and> (if p \<in> set (left # right # rest)
               then \<exists>q. Parent (nodes s' ! p) = Some q \<and> ?n \<le> q \<and> q < length (nodes s')
               else Parent (nodes s' ! p) = Parent (nodes s ! p))"
  proof (intro allI impI)
    fix p assume a: "p < ?n"
    then have b: "p < length (nodes ?s2)" using len2 by simp
    have sb: "same_but_Parent (nodes s ! p) (nodes s' ! p)"
      using same_but_Parent_trans[OF fr2[OF a] fr'[OF b]] .
    have "if p \<in> set (left # right # rest)
               then \<exists>q. Parent (nodes s' ! p) = Some q \<and> ?n \<le> q \<and> q < length (nodes s')
               else Parent (nodes s' ! p) = Parent (nodes s ! p)"
    proof (cases "p \<in> set rest")
      case True
      with par'[OF b] len2 show ?thesis by auto
    next
      case False
      with par'[OF b] par2[OF a] len' len2 show ?thesis by auto
    qed
    with sb show "same_but_Parent (nodes s ! p) (nodes s' ! p)
           \<and> (if p \<in> set (left # right # rest)
               then \<exists>q. Parent (nodes s' ! p) = Some q \<and> ?n \<le> q \<and> q < length (nodes s')
               else Parent (nodes s' ! p) = Parent (nodes s ! p))" by blast
  qed
  have lenf: "length (nodes s') = ?n + (length (left # right # rest) + 1) div 2"
    using len' len2 by simp
  have "level_post sha256 hs (left # right # rest) s s'"
    unfolding level_post_def using c' lenf d l f by blast
  with res show ?case by blast
qed

section \<open>The invariant of the built nodes\<close>

lemma parents_of_set:
  "n \<in> set (parents_of sha256 hs h ls) \<Longrightarrow> \<exists>l\<in>set ls. \<exists>r\<in>set ls. n = mk_parent sha256 hs h l r"
  by (induction sha256 hs h ls rule: parents_of.induct) auto

lemma parents_of_digests:
  "map Hash (parents_of sha256 hs h ls) = pair_digests sha256 hs (map (\<lambda>p. Hash (h ! p)) ls)"
  by (induction sha256 hs h ls rule: parents_of.induct) (auto simp: mk_parent_def)

lemma parents_of_Nil [simp]: "parents_of sha256 hs h ls = [] \<longleftrightarrow> ls = []"
  by (induction sha256 hs h ls rule: parents_of.induct) auto


lemma heap_ok_level:
  assumes ok: "hasher_ok sha256 hs" and h: "heap_ok sha256 hs base (nodes s)"
    and lp: "level_post sha256 hs ls s s'"
    and ls: "\<forall>p\<in>set ls. base \<le> p \<and> p < length (nodes s)"
  shows "heap_ok sha256 hs base (nodes s')"
  unfolding heap_ok_def
proof (intro allI impI)
  fix p assume p: "base \<le> p \<and> p < length (nodes s')"
  let ?h = "nodes s" and ?h' = "nodes s'"
  let ?n = "length (nodes s)"
  from lp have len: "length ?h' = ?n + (length ls + 1) div 2"
    and dr: "drop ?n ?h' = parents_of sha256 hs ?h ls"
    and fr: "\<And>p. p < ?n \<Longrightarrow> same_but_Parent (?h ! p) (?h' ! p)"
    and par: "\<And>p. p < ?n \<Longrightarrow> (if p \<in> set ls
               then \<exists>q. Parent (?h' ! p) = Some q \<and> ?n \<le> q \<and> q < length ?h'
               else Parent (?h' ! p) = Parent (?h ! p))"
    unfolding level_post_def by blast+
  have new: "\<exists>l\<in>set ls. \<exists>r\<in>set ls. ?h' ! q = mk_parent sha256 hs ?h l r \<and> Parent (?h' ! q) = None"
    if q: "?n \<le> q" "q < length ?h'" for q
  proof -
    have "?h' ! q = drop ?n ?h' ! (q - ?n)" using q by simp
    moreover have "q - ?n < length (parents_of sha256 hs ?h ls)" using q len by simp
    ultimately have "?h' ! q \<in> set (parents_of sha256 hs ?h ls)" using dr by (metis nth_mem)
    from parents_of_set[OF this] show ?thesis by (auto simp: mk_parent_def)
  qed
  have newleaf: "\<not> isLeaf (?h' ! q)" if q: "?n \<le> q" "q < length ?h'" for q
    using new[OF q] by (auto simp: isLeaf_def mk_parent_def)
  have fields: "Left (?h' ! q) = Left (?h ! q) \<and> Right (?h' ! q) = Right (?h ! q)
       \<and> Hash (?h' ! q) = Hash (?h ! q) \<and> Data (?h' ! q) = Data (?h ! q)
       \<and> isLeaf (?h' ! q) = isLeaf (?h ! q)" if "q < ?n" for q
    using same_but_Parent_fields[OF fr[OF that]] by (simp add: isLeaf_def)
  show "node_ok sha256 hs base ?h' p"
  proof (cases "p < ?n")
    case True
    with p h have old: "node_ok sha256 hs base ?h p" by (simp add: heap_ok_def)
    have P: "\<forall>q. Parent (?h' ! p) = Some q \<longrightarrow> p < q \<and> q < length ?h' \<and> \<not> isLeaf (?h' ! q)"
    proof (intro allI impI)
      fix q assume a: "Parent (?h' ! p) = Some q"
      show "p < q \<and> q < length ?h' \<and> \<not> isLeaf (?h' ! q)"
      proof (cases "p \<in> set ls")
        case True
        with par[OF \<open>p < ?n\<close>] a have "?n \<le> q" "q < length ?h'" by auto
        with newleaf[OF this] \<open>p < ?n\<close> show ?thesis by simp
      next
        case False
        with par[OF \<open>p < ?n\<close>] a have "Parent (?h ! p) = Some q" by simp
        with old have b: "p < q" "q < ?n" "\<not> isLeaf (?h ! q)" by (auto simp: node_ok_def)
        with fields[OF b(2)] len show ?thesis by simp
      qed
    qed
    have I: "\<not> isLeaf (?h' ! p) \<longrightarrow>
          (\<exists>l r. Left (?h' ! p) = Some l \<and> Right (?h' ! p) = Some r
             \<and> base \<le> l \<and> l < p \<and> base \<le> r \<and> r < p
             \<and> Hash (?h' ! p) = combine sha256 hs (Hash (?h' ! l)) (Hash (?h' ! r)))"
    proof
      assume "\<not> isLeaf (?h' ! p)"
      with fields[OF True] have "\<not> isLeaf (?h ! p)" by simp
      with old obtain l r where lr: "Left (?h ! p) = Some l" "Right (?h ! p) = Some r"
        "base \<le> l" "l < p" "base \<le> r" "r < p"
        "Hash (?h ! p) = combine sha256 hs (Hash (?h ! l)) (Hash (?h ! r))"
        unfolding node_ok_def by blast
      from lr True have "l < ?n" "r < ?n" by auto
      with fields[of l] fields[of r] fields[OF True] lr
      show "\<exists>l r. Left (?h' ! p) = Some l \<and> Right (?h' ! p) = Some r
             \<and> base \<le> l \<and> l < p \<and> base \<le> r \<and> r < p
             \<and> Hash (?h' ! p) = combine sha256 hs (Hash (?h' ! l)) (Hash (?h' ! r))"
        by simp
    qed
    from old fields[OF True] have
      "length (Hash (?h' ! p)) = 32"
      "isLeaf (?h' ! p) \<longrightarrow>
          (\<exists>d. Data (?h' ! p) = Some d \<and> Hash (?h' ! p) = engine sha256 hs (bytes_of (Value d)))"
      by (auto simp: node_ok_def)
    with P I show ?thesis unfolding node_ok_def by blast
  next
    case False
    then have q: "?n \<le> p" "p < length ?h'" using p by auto
    from new[OF q] obtain l r where lr: "l \<in> set ls" "r \<in> set ls"
      "?h' ! p = mk_parent sha256 hs ?h l r" "Parent (?h' ! p) = None" by blast
    from lr ls have b: "base \<le> l" "l < ?n" "base \<le> r" "r < ?n" by auto
    with fields[of l] fields[of r] lr q ok
    show ?thesis
      unfolding node_ok_def
      by (auto simp: mk_parent_def isLeaf_def combine_length)
  qed
qed

lemma map_nth_upt_drop: "length xs = n + k \<Longrightarrow> map ((!) xs) [n ..< n + k] = drop n xs"
  by (rule nth_equalityI) simp_all

lemma heap_ok_Hash_length:
  "heap_ok sha256 hs base h \<Longrightarrow> base \<le> p \<Longrightarrow> p < length h \<Longrightarrow> length (Hash (h ! p)) = 32"
  unfolding heap_ok_def node_ok_def by blast

lemma generateParentNodes_ok:
  "hasher_ok sha256 hs \<Longrightarrow> 2 \<le> length ls \<Longrightarrow> buffers_ok hs s \<Longrightarrow>
   heap_ok sha256 hs base (nodes s) \<Longrightarrow> \<forall>p\<in>set ls. base \<le> p \<and> p < length (nodes s) \<Longrightarrow>
   \<exists>root s'. generateParentNodes sha256 hs ls s = Some (Inr (Some root), s')
      \<and> buffers_ok hs s' \<and> heap_ok sha256 hs base (nodes s')
      \<and> base \<le> root \<and> root < length (nodes s') \<and> length (nodes s) \<le> length (nodes s')
      \<and> (\<forall>p < length (nodes s). same_but_Parent (nodes s ! p) (nodes s' ! p))
      \<and> Hash (nodes s' ! root) = root_digest sha256 hs (map (\<lambda>p. Hash (nodes s ! p)) ls)"
proof (induction "length ls" arbitrary: ls s rule: less_induct)
  case less
  let ?n = "length (nodes s)"
  let ?k = "(length ls + 1) div 2"
  have pre: "\<forall>p\<in>set ls. p < ?n \<and> length (Hash (nodes s ! p)) = 32"
    using less.prems(4,5) by (auto intro: heap_ok_Hash_length)
  from pair_nodes_ok[OF less.prems(1,3) pre] obtain s1 where
    pn: "pair_nodes sha256 hs ls s = (Inr [?n ..< ?n + ?k], s1)"
    and lp: "level_post sha256 hs ls s s1" by blast
  from heap_ok_level[OF less.prems(1,4) lp less.prems(5)]
  have h1: "heap_ok sha256 hs base (nodes s1)" .
  from lp have c1: "buffers_ok hs s1" and len1: "length (nodes s1) = ?n + ?k"
    and dr1: "drop ?n (nodes s1) = parents_of sha256 hs (nodes s) ls"
    and last1: "ls \<noteq> [] \<Longrightarrow> Parent (nodes s1 ! last ls) = Some (length (nodes s1) - 1)"
    and fr1: "\<And>p. p < ?n \<Longrightarrow> same_but_Parent (nodes s ! p) (nodes s1 ! p)"
    unfolding level_post_def by blast+
  have ne: "ls \<noteq> []" using less.prems(2) by auto
  then have basen: "base \<le> ?n" using less.prems(5) by (cases ls) auto
  show ?case
  proof (cases "length ls = 2")
    case True
    then obtain l r where lr: "ls = [l, r]"
      by (auto simp: length_Suc_conv numeral_2_eq_2)
    have r: "r < length (nodes s1)" using pre lr len1 by simp
    have par: "Parent (nodes s1 ! r) = Some ?n" using last1 lr len1 by simp
    have g: "generateParentNodes sha256 hs ls s = Some (Inr (Some ?n), s1)"
      using pn lr r par
      by (subst generateParentNodes.simps) (simp add: node_at_def)
    have "nodes s1 ! ?n = drop ?n (nodes s1) ! 0" using len1 lr by simp
    then have "Hash (nodes s1 ! ?n) = combine sha256 hs (Hash (nodes s ! l)) (Hash (nodes s ! r))"
      using dr1 lr by (simp add: mk_parent_def)
    then have hr: "Hash (nodes s1 ! ?n) = root_digest sha256 hs (map (\<lambda>p. Hash (nodes s ! p)) ls)"
      using lr by (subst root_digest.simps) simp
    have "?n < length (nodes s1)" "?n \<le> length (nodes s1)" using len1 lr by simp_all
    with g c1 h1 basen fr1 hr show ?thesis by blast
  next
    case False
    with less.prems(2) have big: "2 < length ls" by simp
    let ?ps = "[?n ..< ?n + ?k]"
    have lps: "length ?ps = ?k" by simp
    have k: "?k < length ls" "2 \<le> ?k" using big by auto
    have psr: "\<forall>p\<in>set ?ps. base \<le> p \<and> p < length (nodes s1)" using basen len1 by auto
    have "\<exists>root s'. generateParentNodes sha256 hs ?ps s1 = Some (Inr (Some root), s')
      \<and> buffers_ok hs s' \<and> heap_ok sha256 hs base (nodes s')
      \<and> base \<le> root \<and> root < length (nodes s') \<and> length (nodes s1) \<le> length (nodes s')
      \<and> (\<forall>p < length (nodes s1). same_but_Parent (nodes s1 ! p) (nodes s' ! p))
      \<and> Hash (nodes s' ! root) = root_digest sha256 hs (map (\<lambda>p. Hash (nodes s1 ! p)) ?ps)"
    proof (rule less.hyps[of ?ps s1, OF _ less.prems(1) _ c1 h1 psr])
      show "length ?ps < length ls" using k lps by simp
      show "2 \<le> length ?ps" using k lps by simp
    qed
    then obtain root s' where
      g': "generateParentNodes sha256 hs ?ps s1 = Some (Inr (Some root), s')"
      and post: "buffers_ok hs s'" "heap_ok sha256 hs base (nodes s')" "base \<le> root"
        "root < length (nodes s')" "length (nodes s1) \<le> length (nodes s')"
      and fr': "\<And>p. p < length (nodes s1) \<Longrightarrow> same_but_Parent (nodes s1 ! p) (nodes s' ! p)"
      and hr': "Hash (nodes s' ! root) = root_digest sha256 hs (map (\<lambda>p. Hash (nodes s1 ! p)) ?ps)"
      by blast
    have g: "generateParentNodes sha256 hs ls s = Some (Inr (Some root), s')"
      using pn g' big ne
      by (subst generateParentNodes.simps) simp
    have "map (\<lambda>p. Hash (nodes s1 ! p)) ?ps = map Hash (map ((!) (nodes s1)) ?ps)"
      by simp
    also have "\<dots> = map Hash (drop ?n (nodes s1))"
      using map_nth_upt_drop[OF len1] by simp
    also have "\<dots> = pair_digests sha256 hs (map (\<lambda>p. Hash (nodes s ! p)) ls)"
      using dr1 by (simp add: parents_of_digests)
    finally have "Hash (nodes s' ! root)
        = root_digest sha256 hs (pair_digests sha256 hs (map (\<lambda>p. Hash (nodes s ! p)) ls))"
      using hr' by simp
    then have hr: "Hash (nodes s' ! root) = root_digest sha256 hs (map (\<lambda>p. Hash (nodes s ! p)) ls)"
      using big by (subst root_digest.simps) simp
    have fr: "\<forall>p < ?n. same_but_Parent (nodes s ! p) (nodes s' ! p)"
    proof (intro allI impI)
      fix p assume a: "p < ?n"
      then have "p < length (nodes s1)" using len1 by simp
      from same_but_Parent_trans[OF fr1[OF a] fr'[OF this]]
      show "same_but_Parent (nodes s ! p) (nodes s' ! p)" .
    qed
    have "?n \<le> length (nodes s')" using post(5) len1 by simp
    with g post fr hr show ?thesis by blast
  qed
qed

section \<open>Leaves\<close>

lemma set_insert_sorted [simp]: "set (insert_sorted s x ys) = insert x (set ys)"
  by (induction ys) auto

lemma length_insert_sorted [simp]: "length (insert_sorted s x ys) = Suc (length ys)"
  by (induction ys) auto

lemma digests_insert_sorted:
  "map (\<lambda>p. Hash (nodes s ! p)) (insert_sorted s x ys)
     = insert_digest (Hash (nodes s ! x)) (map (\<lambda>p. Hash (nodes s ! p)) ys)"
  by (induction ys) (auto simp: Less_def)

lemma foldl_insert_sorted:
  "set (foldl (\<lambda>acc x. insert_sorted s x acc) acc xs) = set acc \<union> set xs
   \<and> length (foldl (\<lambda>acc x. insert_sorted s x acc) acc xs) = length acc + length xs
   \<and> map (\<lambda>p. Hash (nodes s ! p)) (foldl (\<lambda>acc x. insert_sorted s x acc) acc xs)
       = foldl (\<lambda>acc x. insert_digest x acc) (map (\<lambda>p. Hash (nodes s ! p)) acc)
           (map (\<lambda>p. Hash (nodes s ! p)) xs)"
  by (induction xs arbitrary: acc) (auto simp: digests_insert_sorted)

lemma sorted_nodes_props:
  "set (sorted_nodes s xs) = set xs" "length (sorted_nodes s xs) = length xs"
  "map (\<lambda>p. Hash (nodes s ! p)) (sorted_nodes s xs) = sort_digests (map (\<lambda>p. Hash (nodes s ! p)) xs)"
  using foldl_insert_sorted[of s "[]" xs] by (simp_all add: sorted_nodes_def sort_digests_def)

lemma length_leaf_nodes: "length (leaf_nodes sha256 hs data) = length data + length data mod 2"
  by (simp add: leaf_nodes_def)

lemma leaf_nodes_set:
  "data \<noteq> [] \<Longrightarrow> x \<in> set (leaf_nodes sha256 hs data) \<Longrightarrow>
   \<exists>pad d. d \<in> set data \<and> x = mk_leaf sha256 hs pad d"
proof -
  assume ne: "data \<noteq> []" and x: "x \<in> set (leaf_nodes sha256 hs data)"
  from ne have "data ! (length data - 1) \<in> set data" by simp
  with x show ?thesis
    by (auto simp: leaf_nodes_def split: if_splits)
qed

lemma generateLeafNodes_ok:
  assumes "hasher_ok sha256 hs" "data \<noteq> []"
  shows "generateLeafNodes sha256 hs data s
     = (Inr (if IsSort hs
             then sorted_nodes (s\<lparr>nodes := nodes s @ leaf_nodes sha256 hs data\<rparr>)
                    [length (nodes s) ..< length (nodes s) + length (leaf_nodes sha256 hs data)]
             else [length (nodes s) ..< length (nodes s) + length (leaf_nodes sha256 hs data)]),
        s\<lparr>nodes := nodes s @ leaf_nodes sha256 hs data\<rparr>)"
proof (cases "length data mod 2 = 1")
  case True
  then show ?thesis
    using assms
    by (simp add: generateLeafNodes_def new_leaves_ok NewOrphanLeaf_def newLeaf_ok leaf_nodes_def
        sort_Sort_def sorted_nodes_def list_all_iff)
next
  case False
  then show ?thesis
    using assms
    by (simp add: generateLeafNodes_def new_leaves_ok leaf_nodes_def
        sort_Sort_def sorted_nodes_def list_all_iff)
qed

section \<open>The whole build\<close>

lemma heap_ok_leaves:
  assumes ok: "hasher_ok sha256 hs" and ne: "data \<noteq> []"
  shows "heap_ok sha256 hs (length h) (h @ leaf_nodes sha256 hs data)"
  unfolding heap_ok_def
proof (intro allI impI)
  fix p assume p: "length h \<le> p \<and> p < length (h @ leaf_nodes sha256 hs data)"
  then have "(h @ leaf_nodes sha256 hs data) ! p = leaf_nodes sha256 hs data ! (p - length h)"
    and "p - length h < length (leaf_nodes sha256 hs data)"
    by (auto simp: nth_append)
  then have "(h @ leaf_nodes sha256 hs data) ! p \<in> set (leaf_nodes sha256 hs data)"
    by (metis nth_mem)
  from leaf_nodes_set[OF ne this] obtain pad d where
    "(h @ leaf_nodes sha256 hs data) ! p = mk_leaf sha256 hs pad d" by blast
  with ok show "node_ok sha256 hs (length h) (h @ leaf_nodes sha256 hs data) p"
    unfolding node_ok_def by (simp add: mk_leaf_def isLeaf_def hasher_ok_def)
qed

lemma leaf_level_digests:
  "map (\<lambda>p. Hash ((h @ xs) ! p)) [length h ..< length h + length xs] = map Hash xs"
  by (rule nth_equalityI) (simp_all add: nth_append)

lemma Build_ok:
  assumes ok: "hasher_ok sha256 hs" and c: "buffers_ok hs s" and ne: "data \<noteq> []"
    and b: "builder_config b = Some cfg" "Hasher cfg = Some hs" "MaxGoroutine cfg \<noteq> 0"
  shows "\<exists>leaves root s'.
      Build sha256 b data s
        = Some ((Some \<lparr>Root = Some root, Leaves = leaves, config = cfg\<rparr>, None), s')
      \<and> buffers_ok hs s' \<and> heap_ok sha256 hs (length (nodes s)) (nodes s')
      \<and> leaves = (if IsSort hs
                   then sorted_nodes (s\<lparr>nodes := nodes s @ leaf_nodes sha256 hs data\<rparr>)
                     [length (nodes s) ..< length (nodes s) + length (leaf_nodes sha256 hs data)]
                   else [length (nodes s) ..< length (nodes s) + length (leaf_nodes sha256 hs data)])
      \<and> length (nodes s) + length (leaf_nodes sha256 hs data) \<le> length (nodes s')
      \<and> (\<forall>p < length (nodes s) + length (leaf_nodes sha256 hs data).
            same_but_Parent ((nodes s @ leaf_nodes sha256 hs data) ! p) (nodes s' ! p))
      \<and> length (nodes s) \<le> root \<and> root < length (nodes s')
      \<and> Hash (nodes s' ! root) = root_digest sha256 hs (leaf_digests sha256 hs data)"
proof -
  let ?n = "length (nodes s)"
  let ?m = "length (leaf_nodes sha256 hs data)"
  let ?s1 = "s\<lparr>nodes := nodes s @ leaf_nodes sha256 hs data\<rparr>"
  let ?L = "if IsSort hs then sorted_nodes ?s1 [?n ..< ?n + ?m] else [?n ..< ?n + ?m]"
  have gl: "generateLeafNodes sha256 hs data s = (Inr ?L, ?s1)"
    using generateLeafNodes_ok[OF ok ne, of s] by simp
  have h1: "heap_ok sha256 hs ?n (nodes ?s1)"
    using heap_ok_leaves[OF ok ne, of "nodes s"] by simp
  have c1: "buffers_ok hs ?s1" using c by (simp add: buffers_ok_def pool_clean_def)
  have "length data \<noteq> 0" using ne by simp
  then have "2 \<le> length data + length data mod 2" by presburger
  then have m2: "2 \<le> ?m" by (simp add: length_leaf_nodes)
  have setL: "set ?L = {?n ..< ?n + ?m}" and lenL: "length ?L = ?m"
    by (simp_all add: sorted_nodes_props)
  have rng: "\<forall>p\<in>set ?L. ?n \<le> p \<and> p < length (nodes ?s1)"
    unfolding setL by simp
  have len2: "2 \<le> length ?L" using m2 lenL by simp
  from generateParentNodes_ok[OF ok len2 c1 h1 rng] obtain root s' where
    g: "generateParentNodes sha256 hs ?L ?s1 = Some (Inr (Some root), s')"
    and post: "buffers_ok hs s'" "heap_ok sha256 hs ?n (nodes s')" "?n \<le> root"
      "root < length (nodes s')" "length (nodes ?s1) \<le> length (nodes s')"
    and fr: "\<forall>p < length (nodes ?s1). same_but_Parent (nodes ?s1 ! p) (nodes s' ! p)"
    and hr: "Hash (nodes s' ! root) = root_digest sha256 hs (map (\<lambda>p. Hash (nodes ?s1 ! p)) ?L)"
    by blast
  have lv: "map (\<lambda>p. Hash (nodes ?s1 ! p)) [?n ..< ?n + ?m] = map Hash (leaf_nodes sha256 hs data)"
    using leaf_level_digests[of "nodes s" "leaf_nodes sha256 hs data"] by simp
  have dg: "map (\<lambda>p. Hash (nodes ?s1 ! p)) ?L = leaf_digests sha256 hs data"
  proof (cases "IsSort hs")
    case True
    have "map (\<lambda>p. Hash (nodes ?s1 ! p)) (sorted_nodes ?s1 [?n ..< ?n + ?m])
            = sort_digests (map (\<lambda>p. Hash (nodes ?s1 ! p)) [?n ..< ?n + ?m])"
      by (rule sorted_nodes_props(3))
    with lv True show ?thesis by (simp add: leaf_digests_def)
  next
    case False
    with lv show ?thesis by (simp add: leaf_digests_def)
  qed
  have B: "Build sha256 b data s
        = Some ((Some \<lparr>Root = Some root, Leaves = ?L, config = cfg\<rparr>, None), s')"
    using b ne gl g by (simp add: Build_def)
  have "length (nodes s) + ?m \<le> length (nodes s')" using post(5) by simp
  moreover have "\<forall>p < length (nodes s) + ?m.
            same_but_Parent ((nodes s @ leaf_nodes sha256 hs data) ! p) (nodes s' ! p)"
    using fr by simp
  moreover have "Hash (nodes s' ! root) = root_digest sha256 hs (leaf_digests sha256 hs data)"
    using hr dg by simp
  ultimately show ?thesis using B post by blast
qed

section \<open>Walking up the parent pointers\<close>

lemma agree_except_refl [simp]: "agree_except n h h"
  by (simp add: agree_except_def)

lemma computeNodeHash_ok:
  assumes ok: "hasher_ok sha256 hs" and h: "heap_ok sha256 hs base h"
    and ag: "agree_except n h (nodes t)" and c: "buffers_ok hs t"
    and p: "base \<le> p" "p < length h" "p \<le> n"
  shows "\<exists>t'. computeNodeHash sha256 hs (Some p) t = (Inr (Hash (h ! p)), t')
            \<and> nodes t' = nodes t \<and> buffers_ok hs t'"
proof -
  from h p have nk: "node_ok sha256 hs base h p" by (simp add: heap_ok_def)
  from ag p have len: "p < length (nodes t)"
    and f: "Left (nodes t ! p) = Left (h ! p)" "Right (nodes t ! p) = Right (h ! p)"
      "Data (nodes t ! p) = Data (h ! p)"
    by (simp_all add: agree_except_def)
  show ?thesis
  proof (cases "isLeaf (h ! p)")
    case True
    with nk obtain d where d: "Data (h ! p) = Some d"
      "Hash (h ! p) = engine sha256 hs (bytes_of (Value d))"
      unfolding node_ok_def by blast
    from True f have "isLeaf (nodes t ! p)" by (simp add: isLeaf_def)
    with d f len ok c show ?thesis
      by (simp add: computeNodeHash_def node_at_def StringData_Hash_ok)
  next
    case False
    with nk obtain l r where lr: "Left (h ! p) = Some l" "Right (h ! p) = Some r"
      "base \<le> l" "l < p" "base \<le> r" "r < p"
      "Hash (h ! p) = combine sha256 hs (Hash (h ! l)) (Hash (h ! r))"
      unfolding node_ok_def by blast
    from lr p have b: "l < length h" "r < length h" "l \<noteq> n" "r \<noteq> n" by auto
    with ag have hl: "Hash (nodes t ! l) = Hash (h ! l)" "Hash (nodes t ! r) = Hash (h ! r)"
      "l < length (nodes t)" "r < length (nodes t)"
      by (simp_all add: agree_except_def)
    have l32: "length (Hash (h ! l)) = 32" "length (Hash (h ! r)) = 32"
      using heap_ok_Hash_length[OF h] lr b by simp_all
    from hash_concat_ok[OF ok c l32] obtain t' where
      hc: "hash_concat sha256 hs (Inr (Hash (h ! l))) (Inr (Hash (h ! r))) t
             = (Inr (combine sha256 hs (Hash (h ! l)) (Hash (h ! r))), t')"
      and t': "nodes t' = nodes t" "buffers_ok hs t'" by blast
    from False f have "\<not> isLeaf (nodes t ! p)" by (simp add: isLeaf_def)
    with lr f len hl hc t' show ?thesis
      by (simp add: computeNodeHash_def node_at_def Hash_of_def)
  qed
qed

lemma climb_step:
  assumes ok: "hasher_ok sha256 hs" and h: "heap_ok sha256 hs base h"
    and ag: "agree_except n h (nodes t)" and c: "buffers_ok hs t"
    and q: "base \<le> q" "q < length h" "\<not> isLeaf (h ! q)" "q \<le> n"
  shows "\<exists>t3. nodes t3 = nodes t \<and> buffers_ok hs t3
           \<and> climb sha256 hs (Some q) t
               = (if Hash (nodes t ! q) \<noteq> Hash (h ! q) then Some (Inr False, t3)
                  else climb sha256 hs (Parent (h ! q)) t3)"
proof -
  from h q have nk: "node_ok sha256 hs base h q" by (simp add: heap_ok_def)
  with q obtain l r where lr: "Left (h ! q) = Some l" "Right (h ! q) = Some r"
    "base \<le> l" "l < q" "base \<le> r" "r < q"
    "Hash (h ! q) = combine sha256 hs (Hash (h ! l)) (Hash (h ! r))"
    unfolding node_ok_def by blast
  from ag q have len: "q < length (nodes t)"
    and f: "Left (nodes t ! q) = Left (h ! q)" "Right (nodes t ! q) = Right (h ! q)"
      "Parent (nodes t ! q) = Parent (h ! q)"
    by (simp_all add: agree_except_def)
  from lr q have b: "l < length h" "r < length h" "l \<le> n" "r \<le> n" by auto
  from computeNodeHash_ok[OF ok h ag c lr(3) b(1) b(3)] obtain t1 where
    c1: "computeNodeHash sha256 hs (Some l) t = (Inr (Hash (h ! l)), t1)"
    and t1: "nodes t1 = nodes t" "buffers_ok hs t1" by blast
  from ag t1 have ag1: "agree_except n h (nodes t1)" by simp
  from computeNodeHash_ok[OF ok h ag1 t1(2) lr(5) b(2) b(4)] obtain t2 where
    c2: "computeNodeHash sha256 hs (Some r) t1 = (Inr (Hash (h ! r)), t2)"
    and t2: "nodes t2 = nodes t1" "buffers_ok hs t2" by blast
  have l32: "length (Hash (h ! l)) = 32" "length (Hash (h ! r)) = 32"
    using heap_ok_Hash_length[OF h] lr b by simp_all
  from hash_concat_ok[OF ok t2(2) l32] obtain t3 where
    hc: "hash_concat sha256 hs (Inr (Hash (h ! l))) (Inr (Hash (h ! r))) t2
           = (Inr (combine sha256 hs (Hash (h ! l)) (Hash (h ! r))), t3)"
    and t3: "nodes t3 = nodes t2" "buffers_ok hs t3" by blast
  have "climb sha256 hs (Some q) t
          = (if Hash (nodes t ! q) \<noteq> Hash (h ! q) then Some (Inr False, t3)
             else climb sha256 hs (Parent (h ! q)) t3)"
    using len f lr c1 c2 hc
    by (subst climb.simps) (auto simp: node_at_def)
  with t1 t2 t3 show ?thesis by auto
qed

lemma climb_None: "climb sha256 hs None t = Some (Inr True, t)"
  by (subst climb.simps) simp

lemma climb_ok:
  assumes ok: "hasher_ok sha256 hs"
  shows "buffers_ok hs t \<Longrightarrow> heap_ok sha256 hs base (nodes t) \<Longrightarrow>
         base \<le> q \<Longrightarrow> q < length (nodes t) \<Longrightarrow> \<not> isLeaf (nodes t ! q) \<Longrightarrow>
         \<exists>t'. climb sha256 hs (Some q) t = Some (Inr True, t') \<and> nodes t' = nodes t \<and> buffers_ok hs t'"
proof (induction "length (nodes t) - q" arbitrary: q t rule: less_induct)
  case less
  let ?h = "nodes t"
  have ag: "agree_except (length ?h) ?h (nodes t)" by simp
  from climb_step[OF ok less.prems(2) ag less.prems(1,3,4,5)] less.prems(4)
  obtain t3 where t3: "nodes t3 = nodes t" "buffers_ok hs t3"
    and st: "climb sha256 hs (Some q) t = climb sha256 hs (Parent (?h ! q)) t3"
    by auto
  show ?case
  proof (cases "Parent (?h ! q)")
    case None
    with st t3 show ?thesis by (simp add: climb_None)
  next
    case (Some q')
    from less.prems(2,3,4) have "node_ok sha256 hs base ?h q" by (simp add: heap_ok_def)
    with Some have q': "q < q'" "q' < length ?h" "\<not> isLeaf (?h ! q')"
      unfolding node_ok_def by blast+
    have "\<exists>t'. climb sha256 hs (Some q') t3 = Some (Inr True, t') \<and> nodes t' = nodes t3 \<and> buffers_ok hs t'"
    proof (rule less.hyps)
      show "length (nodes t3) - q' < length (nodes t) - q" using q' t3 by simp
      show "buffers_ok hs t3" by (rule t3)
      show "heap_ok sha256 hs base (nodes t3)" using less.prems(2) t3 by simp
      show "base \<le> q'" using q' less.prems(3) by simp
      show "q' < length (nodes t3)" using q' t3 by simp
      show "\<not> isLeaf (nodes t3 ! q')" using q' t3 by simp
    qed
    with st Some t3 show ?thesis by auto
  qed
qed

lemma scan_leaves_find:
  "\<forall>p\<in>set leaves. p < length (nodes t) \<and> Hash (nodes t ! p) = Hash (h ! p)
        \<and> Parent (nodes t ! p) = Parent (h ! p) \<Longrightarrow>
   scan_leaves sha256 hs d leaves t
     = (case find (\<lambda>p. Hash (h ! p) = d) leaves of
          None \<Rightarrow> Some (Inr False, t)
        | Some lf \<Rightarrow> climb sha256 hs (Parent (h ! lf)) t)"
  by (induction leaves) (auto simp: node_at_def)



lemma find_first:
  "find P xs = Some x \<Longrightarrow> x \<in> set xs \<and> P x"
  by (induction xs) (auto split: if_splits)

lemma find_exists: "x \<in> set xs \<Longrightarrow> P x \<Longrightarrow> \<exists>y. find P xs = Some y"
  by (induction xs) auto

lemma leaf_nodes_item:
  "i < length data \<Longrightarrow> leaf_nodes sha256 hs data ! i = mk_leaf sha256 hs False (data ! i)"
  by (simp add: leaf_nodes_def nth_append)

lemma Verify_built:
  assumes ok: "hasher_ok sha256 hs" and ne: "data \<noteq> []"
    and h: "heap_ok sha256 hs n (nodes t)" and c: "buffers_ok hs t"
    and L: "set leaves = {n ..< n + length (leaf_nodes sha256 hs data)}"
    and m: "n + length (leaf_nodes sha256 hs data) \<le> length (nodes t)"
    and fr: "\<forall>p < length (leaf_nodes sha256 hs data).
               same_but_Parent (leaf_nodes sha256 hs data ! p) (nodes t ! (n + p))"
    and cf: "Hasher cfg = Some hs" and d: "d \<in> set data"
  shows "\<exists>t'. Verify sha256 \<lparr>Root = root, Leaves = leaves, config = cfg\<rparr> d t = Some (Inr True, t')
            \<and> nodes t' = nodes t \<and> buffers_ok hs t'"
proof -
  let ?dg = "engine sha256 hs (bytes_of (Value d))"
  from d obtain i where i: "i < length data" "data ! i = d" by (auto simp: in_set_conv_nth)
  then have il: "i < length (leaf_nodes sha256 hs data)" by (simp add: length_leaf_nodes)
  from fr il leaf_nodes_item[OF i(1), of sha256 hs] i(2)
  have "same_but_Parent (mk_leaf sha256 hs False d) (nodes t ! (n + i))" by auto
  from same_but_Parent_fields[OF this] have hi: "Hash (nodes t ! (n + i)) = ?dg"
    by (simp add: mk_leaf_def)
  have mem: "n + i \<in> set leaves" using L il by simp
  from find_exists[of "n + i" leaves "\<lambda>p. Hash (nodes t ! p) = ?dg", OF mem hi] obtain lf where
    f: "find (\<lambda>p. Hash (nodes t ! p) = ?dg) leaves = Some lf" by blast
  from find_first[OF f] L m have lf: "n \<le> lf" "lf < length (nodes t)" by auto
  have rng: "\<forall>p\<in>set leaves. p < length (nodes t) \<and> Hash (nodes t ! p) = Hash (nodes t ! p)
        \<and> Parent (nodes t ! p) = Parent (nodes t ! p)"
    using L m by auto
  have nonempty: "leaves \<noteq> []" using mem by auto
  have V: "Verify sha256 \<lparr>Root = root, Leaves = leaves, config = cfg\<rparr> d t
             = climb sha256 hs (Parent (nodes t ! lf)) t"
    using nonempty cf f scan_leaves_find[OF rng, of sha256 hs ?dg]
    by (simp add: Verify_def StringData_Hash_ok[OF ok])
  show ?thesis
  proof (cases "Parent (nodes t ! lf)")
    case None
    with V c show ?thesis by (simp add: climb_None)
  next
    case (Some q)
    from h lf have "node_ok sha256 hs n (nodes t) lf" by (simp add: heap_ok_def)
    with Some have q: "lf < q" "q < length (nodes t)" "\<not> isLeaf (nodes t ! q)"
      unfolding node_ok_def by blast+
    have "n \<le> q" using q lf by simp
    from climb_ok[OF ok c h this q(2,3)] V Some show ?thesis by simp
  qed
qed

section \<open>Build, then Verify\<close>

text \<open>
  C1, as the code has it: for every non-empty item sequence, every non-zero concurrency
  limit and every hasher that has no pool and names \<open>sha256\<close> (whose digests have 32
  bytes), \<open>Build\<close> returns a tree and no error, and on that tree \<open>Verify\<close> returns true
  without error for each of the items, in every state that holds the built nodes. Without
  a pool the goroutines of a level share nothing, so running them one after the other gives
  the digests every schedule gives.
\<close>

theorem Build_then_Verify:
  assumes "data \<noteq> []" "builder_config b = Some cfg" "Hasher cfg = Some hs"
    "MaxGoroutine cfg \<noteq> 0" "Pool hs = None" "hasher_Hash hs = SHA256"
    "\<forall>x. length (sha256 x) = 32"
  shows "\<exists>mt s'. Build sha256 b data s = Some ((Some mt, None), s')
           \<and> (\<forall>d \<in> set data. \<forall>t. nodes t = nodes s' \<longrightarrow>
                 (\<exists>t'. Verify sha256 mt d t = Some (Inr True, t')))"
proof -
  let ?n = "length (nodes s)"
  let ?m = "length (leaf_nodes sha256 hs data)"
  have ok: "hasher_ok sha256 hs"
    using assms(5,6,7) by (simp add: hasher_ok_def engine_def)
  have bo: "buffers_ok hs u" for u
    using assms(5) by (rule buffers_ok_no_pool)
  from Build_ok[OF ok bo assms(1,2,3,4)] obtain leaves root s' where
    B: "Build sha256 b data s
          = Some ((Some \<lparr>Root = Some root, Leaves = leaves, config = cfg\<rparr>, None), s')"
    and h: "heap_ok sha256 hs ?n (nodes s')"
    and L: "leaves = (if IsSort hs
                   then sorted_nodes (s\<lparr>nodes := nodes s @ leaf_nodes sha256 hs data\<rparr>) [?n ..< ?n + ?m]
                   else [?n ..< ?n + ?m])"
    and m: "?n + ?m \<le> length (nodes s')"
    and fr: "\<forall>p < ?n + ?m. same_but_Parent ((nodes s @ leaf_nodes sha256 hs data) ! p) (nodes s' ! p)"
    by blast
  have setL: "set leaves = {?n ..< ?n + ?m}"
    unfolding L by (simp add: sorted_nodes_props)
  have fr': "\<forall>p < ?m. same_but_Parent (leaf_nodes sha256 hs data ! p) (nodes s' ! (?n + p))"
  proof (intro allI impI)
    fix p assume "p < ?m"
    then have "?n + p < ?n + ?m" by simp
    with fr have "same_but_Parent ((nodes s @ leaf_nodes sha256 hs data) ! (?n + p)) (nodes s' ! (?n + p))"
      by blast
    then show "same_but_Parent (leaf_nodes sha256 hs data ! p) (nodes s' ! (?n + p))"
      by simp
  qed
  have "\<exists>t'. Verify sha256 \<lparr>Root = Some root, Leaves = leaves, config = cfg\<rparr> d t = Some (Inr True, t')"
    if d: "d \<in> set data" and t: "nodes t = nodes s'" for d t
    using Verify_built[OF ok assms(1) _ bo setL _ _ assms(3) d, of t "Some root"] h m fr' t
    by auto
  with B show ?thesis by blast
qed

lemmas run_simps =
  generateLeafNodes_def NewLeaf_def NewOrphanLeaf_def newLeaf_def StringData_Hash_def
  HashFunc_def alloc_def bytes_of_def NewParentNode_def hash_concat_def Hash_of_def node_at_def
  set_Parent_def computeNodeHash_def isLeaf_def sort_Sort_def Less_def concat_fresh32
  first_operand_def first_byte_digest_def plain_hasher_def plain_config_def plain_builder_def
  empty_state_def item_def leaf_node_def inner_node_def nth_append


section \<open>A replaced digest\<close>



section \<open>Concrete runs\<close>



lemma first_byte_digest_length: "\<forall>x. length (first_byte_digest x) = 32"
  by (simp add: first_byte_digest_def)

theorem Build_then_Verify_witness:
  "[item ''a'', item ''b'', item ''c''] \<noteq> []
   \<and> builder_config plain_builder = Some plain_config
   \<and> Hasher plain_config = Some plain_hasher
   \<and> MaxGoroutine plain_config \<noteq> 0
   \<and> Pool plain_hasher = None \<and> hasher_Hash plain_hasher = SHA256
   \<and> (\<forall>x. length (first_byte_digest x) = 32)
   \<and> (\<exists>mt s'. Build first_byte_digest plain_builder [item ''a'', item ''b'', item ''c''] empty_state
                  = Some ((Some mt, None), s')
         \<and> (\<forall>d \<in> set [item ''a'', item ''b'', item ''c'']. \<forall>t. nodes t = nodes s' \<longrightarrow>
               (\<exists>t'. Verify first_byte_digest mt d t = Some (Inr True, t'))))"
proof -
  have 1: "[item ''a'', item ''b'', item ''c''] \<noteq> []" by simp
  have 2: "builder_config plain_builder = Some plain_config" by (simp add: plain_builder_def)
  have 3: "Hasher plain_config = Some plain_hasher" by (simp add: plain_config_def)
  have 4: "MaxGoroutine plain_config \<noteq> 0" by (simp add: plain_config_def)
  have 5: "Pool plain_hasher = None" by (simp add: plain_hasher_def)
  have 6: "hasher_Hash plain_hasher = SHA256" by (simp add: plain_hasher_def)
  from Build_then_Verify[OF 1 2 3 4 5 6 first_byte_digest_length] 1 2 3 4 5 6
    first_byte_digest_length
  show ?thesis by blast
qed

text \<open>
  The claim as stated fails: a hasher that is not nil but names an unsupported algorithm
  and has no pool passes the checks of \<open>Build\<close>, and \<open>Build\<close> panics at the first leaf.
\<close>

theorem Build_then_Verify_counterexample:
  "Hasher \<lparr>Hasher = Some \<lparr>IsSort = False, hasher_Hash = UNKNOWNHASH, Pool = None\<rparr>,
           MaxGoroutine = 1000, config_isSort = False\<rparr> \<noteq> None
   \<and> MaxGoroutine \<lparr>Hasher = Some \<lparr>IsSort = False, hasher_Hash = UNKNOWNHASH, Pool = None\<rparr>,
           MaxGoroutine = 1000, config_isSort = False\<rparr> \<noteq> 0
   \<and> Build first_byte_digest unknown_builder [item ''a''] empty_state
       = Some ((None, Some (Panic ''Hash<unknown> is not recognized'')), empty_state)"
  by (simp add: Build_def unknown_builder_def generateLeafNodes_def NewLeaf_def newLeaf_def
      StringData_Hash_def HashFunc_def UNKNOWNHASH_def SHA256_def not_recognized_def item_def
      empty_state_def)




section \<open>Determinism of the root digest\<close>

lemmas schedule_simps =
  may_run_def advance_def running_def concat_shared_def GetConcatBuffers_shared_def
  Close_shared_def copy_first_closed copy_second_done

text \<open>
  Without a pool the goroutines of a level share no buffer and no engine, and the root
  digest is a function of the items and the hasher.
\<close>

lemma Build_root_without_pool:
  assumes "data \<noteq> []" "builder_config b = Some cfg" "Hasher cfg = Some hs"
    "MaxGoroutine cfg \<noteq> 0" "hasher_ok sha256 hs" "Pool hs = None"
  shows "\<exists>mt t r. Build sha256 b data s = Some ((Some mt, None), t)
         \<and> Root mt = Some r \<and> r < length (nodes t)
         \<and> Hash (nodes t ! r) = root_digest sha256 hs (leaf_digests sha256 hs data)"
proof -
  from Build_ok[OF assms(5) buffers_ok_no_pool[OF assms(6)] assms(1,2,3,4)] obtain l1 r1 t1 where
    1: "Build sha256 b data s = Some ((Some \<lparr>Root = Some r1, Leaves = l1, config = cfg\<rparr>, None), t1)"
    "r1 < length (nodes t1)"
    "Hash (nodes t1 ! r1) = root_digest sha256 hs (leaf_digests sha256 hs data)"
    by blast
  have "Root \<lparr>Root = Some r1, Leaves = l1, config = cfg\<rparr> = Some r1" by simp
  with 1 show ?thesis by blast
qed

text \<open>
  C9 fails in the code when the hasher has a pool. The second level of a tree of four
  leaves with digests \<open>A\<close>, \<open>B\<close>, \<open>C\<close>, \<open>D\<close> is made by two goroutines, from an empty buffer
  pool and under the limit 1000. When each goroutine finishes before the next one starts,
  the parent of the first pair gets the digest of the buffer written for \<open>A\<close> and \<open>B\<close>;
  when the second goroutine calls \<open>concat\<close> between the first one's \<open>concat\<close> and its
  \<open>Sum\<close>, the parent of the first pair gets the digest of the buffer written for \<open>C\<close> and
  \<open>D\<close>. With the sample engine the two root digests that result are different. Under
  the limit 1 the second schedule gives what the first gives.
\<close>

theorem pooled_root_depends_on_schedule:
  "schedule pool False 1000 [0, 0, 1, 1]
       ([Started (replicate 32 1) (replicate 32 2), Started (replicate 32 3) (replicate 32 4)],
        \<lparr>arrays = [], pooled = []\<rparr>)
     = ([Returned (hashFunc pool (replicate 32 1 @ replicate 480 0)),
         Returned (hashFunc pool (replicate 32 3 @ replicate 480 0))],
        \<lparr>arrays = [replicate 32 3 @ replicate 480 0], pooled = [0]\<rparr>)
   \<and> schedule pool False 1000 [0, 1, 0, 1]
       ([Started (replicate 32 1) (replicate 32 2), Started (replicate 32 3) (replicate 32 4)],
        \<lparr>arrays = [], pooled = []\<rparr>)
     = ([Returned (hashFunc pool (replicate 32 3 @ replicate 480 0)),
         Returned (hashFunc pool (replicate 32 3 @ replicate 480 0))],
        \<lparr>arrays = [replicate 32 3 @ replicate 480 0], pooled = [0]\<rparr>)
   \<and> schedule pool False 1 [0, 1, 0, 1, 1]
       ([Started (replicate 32 1) (replicate 32 2), Started (replicate 32 3) (replicate 32 4)],
        \<lparr>arrays = [], pooled = []\<rparr>)
     = ([Returned (hashFunc pool (replicate 32 1 @ replicate 480 0)),
         Returned (hashFunc pool (replicate 32 3 @ replicate 480 0))],
        \<lparr>arrays = [replicate 32 3 @ replicate 480 0], pooled = [0]\<rparr>)
   \<and> schedule \<lparr>hashFunc = first_byte_digest\<rparr> False 1000 [0, 0]
       ([Started (first_byte_digest (replicate 32 1 @ replicate 480 0))
                 (first_byte_digest (replicate 32 3 @ replicate 480 0))],
        \<lparr>arrays = [replicate 32 3 @ replicate 480 0], pooled = [0]\<rparr>)
     = ([Returned (replicate 32 1)], \<lparr>arrays = [replicate 32 1 @ replicate 480 0], pooled = [0]\<rparr>)
   \<and> schedule \<lparr>hashFunc = first_byte_digest\<rparr> False 1000 [0, 0]
       ([Started (first_byte_digest (replicate 32 3 @ replicate 480 0))
                 (first_byte_digest (replicate 32 3 @ replicate 480 0))],
        \<lparr>arrays = [replicate 32 3 @ replicate 480 0], pooled = [0]\<rparr>)
     = ([Returned (replicate 32 3)], \<lparr>arrays = [replicate 32 3 @ replicate 480 0], pooled = [0]\<rparr>)
   \<and> replicate 32 (1 :: 8 word) \<noteq> replicate 32 3"
  by (simp add: schedule_simps first_byte_digest_def nth_append)

section \<open>Odd counts\<close>







section \<open>Validation errors\<close>

text \<open>
  C6: \<open>Build\<close> returns the configuration errors for a nil configuration, a nil hasher
  and a zero \<open>MaxGoroutine\<close>, whatever the items are, and the empty-input error for an empty
  item sequence once the configuration has passed; in each case it returns no tree and the
  state is untouched (no node allocated, no buffer taken).
\<close>

theorem Build_fails_fast:
  "(builder_config b = None \<longrightarrow>
      Build sha256 b data s = Some ((None, Some (Err ErrMerkleTreeConfigIsNil)), s))
   \<and> (builder_config b = Some cfg \<and> Hasher cfg = None \<longrightarrow>
      Build sha256 b data s = Some ((None, Some (Err ErrMerkleTreeConfigHasherIsNil)), s))
   \<and> (builder_config b = Some cfg \<and> Hasher cfg = Some hs \<and> MaxGoroutine cfg = 0 \<longrightarrow>
      Build sha256 b data s = Some ((None, Some (Err ErrMerkleTreeConfigMaxGoroutineIsEqZero)), s))
   \<and> (builder_config b = Some cfg \<and> Hasher cfg = Some hs \<and> MaxGoroutine cfg \<noteq> 0 \<and> data = [] \<longrightarrow>
      Build sha256 b data s = Some ((None, Some (Err ErrMerkleTreeDataIsNilOrEmpty)), s))"
  by (simp add: Build_def)

theorem Build_fails_fast_witness:
  "Build first_byte_digest \<lparr>builder_config = None\<rparr> [item ''a''] empty_state
     = Some ((None, Some (Err ErrMerkleTreeConfigIsNil)), empty_state)
   \<and> Build first_byte_digest
        \<lparr>builder_config = Some \<lparr>Hasher = None, MaxGoroutine = 4, config_isSort = False\<rparr>\<rparr>
        [item ''a''] empty_state
     = Some ((None, Some (Err ErrMerkleTreeConfigHasherIsNil)), empty_state)
   \<and> Build first_byte_digest
        \<lparr>builder_config = Some \<lparr>Hasher = Some plain_hasher, MaxGoroutine = 0, config_isSort = False\<rparr>\<rparr>
        [item ''a''] empty_state
     = Some ((None, Some (Err ErrMerkleTreeConfigMaxGoroutineIsEqZero)), empty_state)
   \<and> Build first_byte_digest plain_builder [] empty_state
     = Some ((None, Some (Err ErrMerkleTreeDataIsNilOrEmpty)), empty_state)"
  using
    Build_fails_fast[of "\<lparr>builder_config = None\<rparr>" first_byte_digest "[item ''a'']" empty_state]
    Build_fails_fast[of
      "\<lparr>builder_config = Some \<lparr>Hasher = None, MaxGoroutine = 4, config_isSort = False\<rparr>\<rparr>"
      first_byte_digest "[item ''a'']" empty_state
      "\<lparr>Hasher = None, MaxGoroutine = 4, config_isSort = False\<rparr>"]
    Build_fails_fast[of
      "\<lparr>builder_config = Some \<lparr>Hasher = Some plain_hasher, MaxGoroutine = 0, config_isSort = False\<rparr>\<rparr>"
      first_byte_digest "[item ''a'']" empty_state
      "\<lparr>Hasher = Some plain_hasher, MaxGoroutine = 0, config_isSort = False\<rparr>" plain_hasher]
    Build_fails_fast[of plain_builder first_byte_digest "[]" empty_state plain_config plain_hasher]
  by (simp add: plain_builder_def plain_config_def)

section \<open>Items that are not found, and the faults of Verify\<close>

lemma wrap_panic [simp]: "is_panic (wrap m f) = is_panic f"
  by (cases f) auto

lemma copy_first_fault: "copy_first b b1 i = (Some f, b') \<Longrightarrow> is_panic f"
proof (induction b b1 i rule: copy_first.induct)
  case (1 b b1 i)
  from "1.prems" show ?case
    by (subst (asm) copy_first.simps) (auto split: if_splits intro: "1.IH")
qed

lemma copy_second_fault: "copy_second b b1 b2 i j = (Some f, b') \<Longrightarrow> is_panic f"
proof (induction b b1 b2 i j rule: copy_second.induct)
  case (1 b b1 b2 i j)
  from "1.prems" show ?case
    by (subst (asm) copy_second.simps) (auto split: if_splits intro: "1.IH")
qed

lemma concat_bytes_fault: "concat_bytes r srt b1 b2 s = (Inl f, s') \<Longrightarrow> is_panic f"
  by (auto simp: concat_bytes_def Let_def split: prod.splits option.splits if_splits
      dest: copy_first_fault copy_second_fault)

lemma hash_concat_fault:
  assumes "\<And>e. lo = Inl e \<Longrightarrow> is_panic e" "\<And>e. ro = Inl e \<Longrightarrow> is_panic e"
    and "hash_concat sha256 hs lo ro s = (Inl f, s')"
  shows "is_panic f"
  using assms
  by (auto simp: hash_concat_def HashFunc_def split: option.splits sum.splits if_splits prod.splits
      dest: concat_bytes_fault)

lemma StringData_Hash_fault: "StringData_Hash sha256 hs d = Inl f \<Longrightarrow> is_panic f"
  by (auto simp: StringData_Hash_def HashFunc_def split: option.splits sum.splits if_splits)

lemma Hash_of_fault: "Hash_of s p = Inl f \<Longrightarrow> is_panic f"
  by (auto simp: Hash_of_def split: option.splits)

lemma computeNodeHash_fault: "computeNodeHash sha256 hs n s = (Inl f, s') \<Longrightarrow> is_panic f"
  unfolding computeNodeHash_def
  by (auto split: option.splits if_splits
      dest: StringData_Hash_fault elim!: hash_concat_fault[rotated 2] dest: Hash_of_fault)

lemma climb_fault: "climb sha256 hs cur s = Some (Inl f, s') \<Longrightarrow> is_panic f"
proof -
  have "climb sha256 hs cur s = Some y \<Longrightarrow> \<forall>f s'. y = (Inl f, s') \<longrightarrow> is_panic f" for y
  proof (erule climb.raw_induct[where P = "\<lambda>_ _ _ _ y. \<forall>f s'. y = (Inl f, s') \<longrightarrow> is_panic f",
        rotated 1])
    fix climb' :: "(bytes \<Rightarrow> bytes) \<Rightarrow> Hasher \<Rightarrow> nat option \<Rightarrow> state \<Rightarrow> ((fault + bool) \<times> state) option"
      and sha256 hs currentParent s y
    assume IH: "\<And>a b c d y. climb' a b c d = Some y \<Longrightarrow> \<forall>f s'. y = (Inl f, s') \<longrightarrow> is_panic f"
      and body: "(case currentParent of
        None \<Rightarrow> Some (Inr True, s)
      | Some p \<Rightarrow>
          (case node_at s p of
             None \<Rightarrow> Some (Inl (Panic nil_dereference), s)
           | Some cp \<Rightarrow>
               (case computeNodeHash sha256 hs (Left cp) s of
                  (Inl e, s1) \<Rightarrow> Some (Inl (wrap ''mt.computeNodeHash(currentParent.Left)'' e), s1)
                | (Inr leftNodeHash, s1) \<Rightarrow>
                    (case computeNodeHash sha256 hs (Right cp) s1 of
                       (Inl e, s2) \<Rightarrow>
                         Some (Inl (wrap ''mt.computeNodeHash(currentParent.Right)'' e), s2)
                     | (Inr rightNodeHash, s2) \<Rightarrow>
                         (case hash_concat sha256 hs (Inr leftNodeHash) (Inr rightNodeHash) s2 of
                            (Inl e, s3) \<Rightarrow> Some (Inl e, s3)
                          | (Inr h, s3) \<Rightarrow>
                              if h \<noteq> Hash cp then Some (Inr False, s3)
                              else climb' sha256 hs (Parent cp) s3))))) = Some y"
    have hc: "is_panic e" if "hash_concat sha256 hs (Inr l) (Inr r) t = (Inl e, t')" for l r t e t'
      using hash_concat_fault[OF _ _ that] by simp
    from body show "\<forall>f s'. y = (Inl f, s') \<longrightarrow> is_panic f"
      by (auto split: option.splits sum.splits prod.splits if_splits
          dest: computeNodeHash_fault hc IH)
  qed
  then show "climb sha256 hs cur s = Some (Inl f, s') \<Longrightarrow> is_panic f" by blast
qed

lemma scan_leaves_fault: "scan_leaves sha256 hs dg leaves s = Some (Inl f, s') \<Longrightarrow> is_panic f"
proof (induction leaves)
  case Nil
  then show ?case by simp
next
  case (Cons leaf rest)
  show ?case
  proof (cases "node_at s leaf")
    case None
    with Cons.prems show ?thesis by auto
  next
    case (Some n)
    show ?thesis
    proof (cases "Hash n \<noteq> dg")
      case True
      with Some Cons.prems have "scan_leaves sha256 hs dg rest s = Some (Inl f, s')" by simp
      then show ?thesis by (rule Cons.IH)
    next
      case False
      with Some Cons.prems have "climb sha256 hs (Parent n) s = Some (Inl f, s')" by simp
      then show ?thesis by (rule climb_fault)
    qed
  qed
qed

lemma wrap_not_Err: "is_panic f \<Longrightarrow> wrap m f \<noteq> Err e"
  by (cases f) auto

lemma scan_leaves_no_match:
  "\<forall>p \<in> set leaves. p < length (nodes s) \<and> Hash (nodes s ! p) \<noteq> dg \<Longrightarrow>
   scan_leaves sha256 hs dg leaves s = Some (Inr False, s)"
  by (induction leaves) (auto simp: node_at_def)

text \<open>
  C8: on a tree without leaves \<open>Verify\<close> returns false and no error; it does so too when
  the item's digest is computed and no leaf has it; and no call of \<open>Verify\<close> returns an
  error value (engines do not fail on \<open>Write\<close>; what is left are panics).
\<close>

theorem Verify_not_found:
  "(Leaves mt = [] \<longrightarrow> Verify sha256 mt d s = Some (Inr False, s))
   \<and> (Hasher (config mt) = Some hs \<and> StringData_Hash sha256 hs d = Inr dg
        \<and> (\<forall>p \<in> set (Leaves mt). p < length (nodes s) \<and> Hash (nodes s ! p) \<noteq> dg) \<longrightarrow>
      Verify sha256 mt d s = Some (Inr False, s))
   \<and> (\<forall>e s'. Verify sha256 mt d s \<noteq> Some (Inl (Err e), s'))"
proof (intro conjI impI allI)
  assume "Leaves mt = []"
  then show "Verify sha256 mt d s = Some (Inr False, s)" by (simp add: Verify_def)
next
  assume "Hasher (config mt) = Some hs \<and> StringData_Hash sha256 hs d = Inr dg
        \<and> (\<forall>p \<in> set (Leaves mt). p < length (nodes s) \<and> Hash (nodes s ! p) \<noteq> dg)"
  then show "Verify sha256 mt d s = Some (Inr False, s)"
    by (simp add: Verify_def scan_leaves_no_match)
next
  fix e s'
  show "Verify sha256 mt d s \<noteq> Some (Inl (Err e), s')"
  proof
    assume a: "Verify sha256 mt d s = Some (Inl (Err e), s')"
    show False
    proof (cases "Hasher (config mt)")
      case None
      with a show False by (simp add: Verify_def split: if_splits)
    next
      case (Some h)
      show False
      proof (cases "StringData_Hash sha256 h d")
        case (Inl x)
        from StringData_Hash_fault[OF this] have "wrap ''data.Hasher()'' x \<noteq> Err e"
          by (rule wrap_not_Err)
        with a Some Inl show False by (simp add: Verify_def split: if_splits)
      next
        case (Inr dg')
        with a Some have "scan_leaves sha256 h dg' (Leaves mt) s = Some (Inl (Err e), s')"
          by (simp add: Verify_def split: if_splits)
        from scan_leaves_fault[OF this] show False by simp
      qed
    qed
  qed
qed

theorem Verify_not_found_witness:
  "Leaves \<lparr>Root = None, Leaves = [], config = plain_config\<rparr> = []
   \<and> Verify first_byte_digest \<lparr>Root = None, Leaves = [], config = plain_config\<rparr> (item ''a'')
         empty_state = Some (Inr False, empty_state)
   \<and> Hasher (config four_tree) = Some plain_hasher
   \<and> StringData_Hash first_byte_digest plain_hasher (item ''z'') = Inr (replicate 32 122)
   \<and> list_all (\<lambda>p. p < length (nodes \<lparr>nodes = four_nodes, buffers = []\<rparr>)
          \<and> Hash (nodes \<lparr>nodes = four_nodes, buffers = []\<rparr> ! p) \<noteq> replicate 32 122)
        (Leaves four_tree)
   \<and> Verify first_byte_digest four_tree (item ''z'') \<lparr>nodes = four_nodes, buffers = []\<rparr>
       = Some (Inr False, \<lparr>nodes = four_nodes, buffers = []\<rparr>)"
proof -
  have 1: "Leaves \<lparr>Root = None, Leaves = [], config = plain_config\<rparr> = []" by simp
  have 2: "Hasher (config four_tree) = Some plain_hasher"
    by (simp add: four_tree_def plain_config_def)
  have 3: "StringData_Hash first_byte_digest plain_hasher (item ''z'') = Inr (replicate 32 122)"
    by (simp add: run_simps)
  have 4: "\<forall>p \<in> set (Leaves four_tree). p < length (nodes \<lparr>nodes = four_nodes, buffers = []\<rparr>)
          \<and> Hash (nodes \<lparr>nodes = four_nodes, buffers = []\<rparr> ! p) \<noteq> replicate 32 122"
    by (simp add: four_tree_def four_nodes_def leaf_node_def)
  from
    Verify_not_found[of "\<lparr>Root = None, Leaves = [], config = plain_config\<rparr>" first_byte_digest
      "item ''a''" empty_state]
    Verify_not_found[of four_tree first_byte_digest "item ''z''"
      "\<lparr>nodes = four_nodes, buffers = []\<rparr>" plain_hasher "replicate 32 122"]
    1 2 3 4
  show ?thesis unfolding list_all_iff by blast
qed

end
